theory Spec2Isabelle
  imports Main
begin

section \<open>Tree values\<close>

text \<open>
  A parsed YAML/JSON document is a tree value. Numbers are opaque leaves for the rule
  engine (it never computes with them), so an integer stands for them. An object is the
  list of its properties in insertion order; a JavaScript object never holds a key twice,
  which is \<open>wf_json\<close> below.
\<close>

datatype json =
    JNull
  | JBool bool
  | JNum int
  | JStr string
  | JArr "json list"
  | JObj "(string \<times> json) list"

fun wf_json :: "json \<Rightarrow> bool" where
  "wf_json (JObj a) = (distinct (map fst a) \<and> list_all (\<lambda>kv. wf_json (snd kv)) a)"
| "wf_json (JArr xs) = list_all wf_json xs"
| "wf_json _ = True"

section \<open>lodash and utility helpers\<close>

text \<open>
  \<open>null\<close> and \<open>undefined\<close> are \<open>None\<close>. \<open>isNil\<close> and \<open>defaultTo\<close> are lodash's:
  \<open>defaultTo(value, d)\<close> is \<open>d\<close> when \<open>value\<close> is \<open>null\<close>, \<open>undefined\<close> or \<open>NaN\<close>, and
  \<open>value\<close> otherwise (a string is never \<open>NaN\<close>). \<open>cloneDeep\<close> builds an independent copy
  with the same tree value; on values it is the identity, and the independence is in the
  model's separation of tree values from the document store. \<open>Array.from\<close> copies a list.
\<close>

definition isNil :: "'a option \<Rightarrow> bool" where
  "isNil v = (v = None)"

definition defaultTo :: "'a option \<Rightarrow> 'a \<Rightarrow> 'a" where
  "defaultTo v d = (case v of None \<Rightarrow> d | Some x \<Rightarrow> x)"

definition cloneDeep :: "'a \<Rightarrow> 'a" where
  "cloneDeep v = v"

definition Array_from :: "'a list \<Rightarrow> 'a list" where
  "Array_from xs = xs"

text \<open>
  lodash's \<open>intersection(xs, ys)\<close>: the unique values of \<open>xs\<close> that are also in \<open>ys\<close>, in
  the order of their first occurrence in \<open>xs\<close>.
\<close>

fun uniq :: "'a list \<Rightarrow> 'a list \<Rightarrow> 'a list" where
  "uniq seen [] = []"
| "uniq seen (x # xs) = (if x \<in> set seen then uniq seen xs else x # uniq (x # seen) xs)"

definition intersection :: "'a list \<Rightarrow> 'a list \<Rightarrow> 'a list" where
  "intersection xs ys = uniq [] (filter (\<lambda>x. x \<in> set ys) xs)"

definition Array_includes :: "'a list \<Rightarrow> 'a \<Rightarrow> bool" where
  "Array_includes xs x = (x \<in> set xs)"

text \<open>
  Modelled from the spec: \<open>hasItems\<close> of \<open>src/utils\<close> is not among the sources. The spec
  reads it as "is non-empty" (of the errors of a result, of a delta); an absent list
  (\<open>null\<close>, \<open>undefined\<close>) has no items.
\<close>

definition hasItems :: "'a list option \<Rightarrow> bool" where
  "hasItems v = (case v of None \<Rightarrow> False | Some xs \<Rightarrow> xs \<noteq> [])"

section \<open>Rules and selectors\<close>

text \<open>
  Modelled from the spec: the declaration of \<open>LogLevel\<close> (package noicejs) is not among the
  sources; section 6 of the spec lists its values.
\<close>

datatype LogLevel = Debug | Info | Warn | Error | Fatal

text \<open>
  \<open>RuleData\<close> is a rule as parsed from a rule source. \<open>select\<close> and \<open>filter\<close> may be
  absent there.
\<close>

record RuleData =
  data_desc :: string
  data_level :: LogLevel
  data_name :: string
  data_tags :: "string list"
  data_check :: json
  data_filter :: "json option"
  data_select :: "string option"

record SchemaRule =
  check :: json
  desc :: string
  filter_opt :: "json option"
  level :: LogLevel
  name :: string
  select :: string
  tags :: "string list"

record RuleSelector =
  excludeLevel :: "LogLevel list"
  excludeName :: "string list"
  excludeTag :: "string list"
  includeLevel :: "LogLevel list"
  includeName :: "string list"
  includeTag :: "string list"

text \<open>The constructor of \<open>SchemaRule\<close>.\<close>

definition SchemaRule_new :: "RuleData \<Rightarrow> SchemaRule" where
  "SchemaRule_new data =
     \<lparr> check = cloneDeep (data_check data),
       desc = data_desc data,
       filter_opt = (if \<not> isNil (data_filter data)
                     then Some (cloneDeep (the (data_filter data))) else None),
       level = data_level data,
       name = data_name data,
       select = defaultTo (data_select data) ''$'',
       tags = Array_from (data_tags data) \<rparr>"

subsection \<open>resolveRules\<close>

text \<open>
  \<open>activeRules\<close> is a JavaScript \<open>Set\<close> of rule objects: it compares by object identity and
  keeps insertion order. A rule object is a reference \<open>ref\<close> into a heap of (immutable)
  rules, and the set is the list of its distinct members in insertion order.
\<close>

type_synonym ref = nat

definition Set_add :: "'a \<Rightarrow> 'a list \<Rightarrow> 'a list" where
  "Set_add x s = (if x \<in> set s then s else s @ [x])"

text \<open>One iteration of the loop over the catalog; \<open>continue\<close> leaves the set as it is.\<close>

definition resolveRule :: "RuleSelector \<Rightarrow> (ref \<Rightarrow> SchemaRule) \<Rightarrow> ref \<Rightarrow> ref list \<Rightarrow> ref list" where
  "resolveRule selector heap r activeRules =
     (if Array_includes (excludeLevel selector) (level (heap r)) then activeRules
      else if Array_includes (excludeName selector) (name (heap r)) then activeRules
      else if length (intersection (excludeTag selector) (tags (heap r))) > 0 then activeRules
      else
        let s1 = (if Array_includes (includeLevel selector) (level (heap r))
                  then Set_add r activeRules else activeRules);
            s2 = (if Array_includes (includeName selector) (name (heap r))
                  then Set_add r s1 else s1);
            s3 = (if length (intersection (includeTag selector) (tags (heap r))) > 0
                  then Set_add r s2 else s2)
        in s3)"

fun resolveLoop :: "RuleSelector \<Rightarrow> (ref \<Rightarrow> SchemaRule) \<Rightarrow> ref list \<Rightarrow> ref list \<Rightarrow> ref list" where
  "resolveLoop selector heap [] activeRules = activeRules"
| "resolveLoop selector heap (r # rules) activeRules =
     resolveLoop selector heap rules (resolveRule selector heap r activeRules)"

definition resolveRules :: "(ref \<Rightarrow> SchemaRule) \<Rightarrow> ref list \<Rightarrow> RuleSelector \<Rightarrow> ref list" where
  "resolveRules heap rules selector = resolveLoop selector heap rules []"

section \<open>Deltas\<close>

text \<open>
  Modelled from the spec: the delta operations are those of the package deep-diff, which is
  not among the sources. Section 4.5 of the spec has one operation per added, changed or
  removed key or array index. \<open>Added p k v\<close>: the container at path \<open>p\<close> gains \<open>v\<close> under
  \<open>k\<close>; \<open>Removed p k\<close>: it loses \<open>k\<close>; \<open>Changed p v\<close>: the value at path \<open>p\<close> becomes \<open>v\<close>.
\<close>

datatype key = Prop string | Index nat

type_synonym path = "key list"

datatype DeltaOp = Added path key json | Changed path json | Removed path key

subsection \<open>The delta engine\<close>

text \<open>
  Modelled from the spec: \<open>diff\<close> and \<open>applyDiff\<close> come from the package deep-diff, which
  is not among the sources. Section 4.5 of the spec gives their contract: \<open>diff(a, b)\<close> is a
  structural comparison of two tree values, with one operation per added, changed or
  removed key or array index, recursing into nested containers; \<open>apply(target, ops)\<close>
  changes the target so that it is deep-equal to the \<open>b\<close> of the diff. Deep equality
  compares objects as maps from keys to values, whatever the order of their properties.
\<close>

lemma size_prop_value:
  "map_of a k = Some v \<Longrightarrow> size v < Suc (size_list (size_prod (\<lambda>x. 0) size) a)"
  by (induction a) (auto split: if_splits)

lemma size_elem: "x \<in> set xs \<Longrightarrow> size x < Suc (size_list size xs)"
  by (induction xs) auto

lemma size_zip_left: "(x, y) \<in> set (zip xs ys) \<Longrightarrow> size x < Suc (size_list size xs)"
  by (rule size_elem) (rule set_zip_leftD)

text \<open>
  Modelled from the spec: deep equality of two tree values. Two objects are deep-equal when
  every key of either has a value in both and the two values are deep-equal; two arrays when
  they have the same length and deep-equal elements at every index; a leaf only to itself.
\<close>

function (sequential) deep_equal :: "json \<Rightarrow> json \<Rightarrow> bool" where
  "deep_equal (JObj a) (JObj b) =
     list_all (\<lambda>k. case map_of a k of None \<Rightarrow> False
                 | Some v \<Rightarrow> (case map_of b k of None \<Rightarrow> False | Some w \<Rightarrow> deep_equal v w))
       (map fst a @ map fst b)"
| "deep_equal (JArr xs) (JArr ys) =
     (length xs = length ys \<and> list_all (\<lambda>(x, y). deep_equal x y) (zip xs ys))"
| "deep_equal a b = (a = b)"
  by pat_completeness auto
termination
  by (relation "measure (\<lambda>(a, b). size a)") (auto simp: size_prop_value size_zip_left)

text \<open>
  Modelled from the spec: \<open>DeltaEngine.diff\<close>. \<open>at k c\<close> is the operation \<open>c\<close> one level
  down, under the key or index \<open>k\<close>. In two objects, each property of the first is removed
  when the second has no such key and compared with the second's value otherwise, and the
  keys only the second has are added. In two arrays, the elements at common indices are
  compared, the surplus of the first is removed from the end and the surplus of the second
  is added. Any other two values are one change when they differ.
\<close>

fun at :: "key \<Rightarrow> DeltaOp \<Rightarrow> DeltaOp" where
  "at k (Added p j v) = Added (k # p) j v"
| "at k (Changed p v) = Changed (k # p) v"
| "at k (Removed p j) = Removed (k # p) j"

fun DeltaEngine_diff :: "json \<Rightarrow> json \<Rightarrow> DeltaOp list"
  and diff_props :: "(string \<times> json) list \<Rightarrow> (string \<times> json) list \<Rightarrow> DeltaOp list"
  and diff_elems :: "nat \<Rightarrow> json list \<Rightarrow> json list \<Rightarrow> DeltaOp list" where
  "DeltaEngine_diff (JObj a) (JObj b) =
     diff_props a b @
     map (\<lambda>(k, w). Added [] (Prop k) w) (filter (\<lambda>(k, w). map_of a k = None) b)"
| "DeltaEngine_diff (JArr xs) (JArr ys) = diff_elems 0 xs ys"
| "DeltaEngine_diff a b = (if a = b then [] else [Changed [] b])"
| "diff_props [] b = []"
| "diff_props ((k, v) # a) b =
     (case map_of b k of
        None \<Rightarrow> [Removed [] (Prop k)]
      | Some w \<Rightarrow> map (at (Prop k)) (DeltaEngine_diff v w)) @ diff_props a b"
| "diff_elems i [] ys = map (\<lambda>(j, y). Added [] (Index j) y) (enumerate i ys)"
| "diff_elems i (x # xs) [] = diff_elems (Suc i) xs [] @ [Removed [] (Index i)]"
| "diff_elems i (x # xs) (y # ys) =
     map (at (Index i)) (DeltaEngine_diff x y) @ diff_elems (Suc i) xs ys"

text \<open>
  Modelled from the spec: \<open>DeltaEngine.apply\<close>, the operations applied in order.
\<close>

fun setChild :: "key \<Rightarrow> (json \<Rightarrow> json) \<Rightarrow> json \<Rightarrow> json" where
  "setChild (Prop k) f (JObj a) = JObj (map (\<lambda>(k', v). if k' = k then (k', f v) else (k', v)) a)"
| "setChild (Index i) f (JArr xs) = JArr (if i < length xs then xs[i := f (xs ! i)] else xs)"
| "setChild k f t = t"

fun addChild :: "key \<Rightarrow> json \<Rightarrow> json \<Rightarrow> json" where
  "addChild (Prop k) v (JObj a) = JObj (a @ [(k, v)])"
| "addChild (Index i) v (JArr xs) = JArr (take i xs @ v # drop i xs)"
| "addChild k v t = t"

fun removeChild :: "key \<Rightarrow> json \<Rightarrow> json" where
  "removeChild (Prop k) (JObj a) = JObj (filter (\<lambda>kv. fst kv \<noteq> k) a)"
| "removeChild (Index i) (JArr xs) = JArr (take i xs @ drop (Suc i) xs)"
| "removeChild k t = t"

fun op_path :: "DeltaOp \<Rightarrow> path" where
  "op_path (Added p k v) = p"
| "op_path (Changed p v) = p"
| "op_path (Removed p k) = p"

function applyChange :: "json \<Rightarrow> DeltaOp \<Rightarrow> json" where
  "applyChange t (Changed [] v) = v"
| "applyChange t (Added [] k v) = addChild k v t"
| "applyChange t (Removed [] k) = removeChild k t"
| "applyChange t (Changed (k # p) v) = setChild k (\<lambda>c. applyChange c (Changed p v)) t"
| "applyChange t (Added (k # p) j v) = setChild k (\<lambda>c. applyChange c (Added p j v)) t"
| "applyChange t (Removed (k # p) j) = setChild k (\<lambda>c. applyChange c (Removed p j)) t"
  by pat_completeness auto
termination
  by (relation "measure (\<lambda>(t, c). length (op_path c))") auto

definition DeltaEngine_apply :: "json \<Rightarrow> DeltaOp list \<Rightarrow> json" where
  "DeltaEngine_apply target ops = foldl applyChange target ops"

section \<open>The visitor context\<close>

text \<open>
  The failure descriptor of a compiled predicate (ajv's \<open>ErrorObject\<close>); of its fields the
  model keeps the pointer into the node and the message.
\<close>

record ErrorObject =
  dataPath :: string
  message :: string

text \<open>
  A compiled predicate (ajv's \<open>ValidateFunction\<close>) is called on a node. The call returns a
  boolean, may rewrite the node it was given (defaults, coercions) and leaves its failure
  descriptors in its \<open>errors\<close> property, which may be absent. \<open>validation\<close> is what a call
  leaves behind.
\<close>

record validation =
  valid :: bool
  node_after :: json
  failures :: "ErrorObject list option"

type_synonym ValidateFunction = "json \<Rightarrow> validation"

text \<open>
  Modelled from the spec: \<open>VisitorError\<close>, \<open>VisitorResult\<close>, \<open>friendlyError\<close> and the class
  \<open>VisitorContext\<close> are not among the sources. Section 3 of the spec: a rule error has the
  rule, a pointer into the failing node and a message; a result has the changes and the
  errors, append-only and merged across rules and nodes; the context holds the logger, the
  compilation capability with its cache, the path-selection capability, the accumulated
  result and the \<open>mutate\<close> flag.
\<close>

record VisitorError =
  err_rule :: SchemaRule
  err_path :: string
  err_msg :: string

record VisitorResult =
  changes :: "DeltaOp list"
  errors :: "VisitorError list"

text \<open>The logger is the list of the entries written so far.\<close>

datatype log_field =
    LCount nat
  | LRule SchemaRule
  | LRuleName string
  | LItem json
  | LDiff "DeltaOp list option"
  | LErrors "ErrorObject list option"

type_synonym log_entry = "LogLevel \<times> log_field list \<times> string"

record RuleOptions =
  mutate :: bool

text \<open>
  \<open>'d\<close> is the state of the document in memory and \<open>'n\<close> what \<open>pick\<close> returns for a node
  (a JavaScript value: a reference to an object of the document, or a primitive).
  \<open>compile\<close> and \<open>pick\<close> are the capabilities the context gives access to (ajv, jsonpath);
  both are taken as they come, and as returning: the engine has no \<open>throw\<close> and no
  \<open>catch\<close> of its own, so a schema that does not compile or a path that does not parse is
  outside the runs described here.
\<close>

record ('d, 'n) VisitorContext =
  logger :: "log_entry list"
  compile :: "json \<Rightarrow> ValidateFunction"
  pick :: "string \<Rightarrow> 'd \<Rightarrow> 'n list"
  result :: VisitorResult
  innerOptions :: RuleOptions

definition log :: "LogLevel \<Rightarrow> log_field list \<Rightarrow> string \<Rightarrow> ('d, 'n) VisitorContext
    \<Rightarrow> ('d, 'n) VisitorContext" where
  "log lvl flds msg ctx = ctx\<lparr>logger := logger ctx @ [(lvl, flds, msg)]\<rparr>"

definition friendlyError :: "('d, 'n) VisitorContext \<Rightarrow> ErrorObject \<Rightarrow> SchemaRule \<Rightarrow> VisitorError" where
  "friendlyError ctx err rule =
     \<lparr> err_rule = rule, err_path = dataPath err, err_msg = message err \<rparr>"

definition mergeResult :: "('d, 'n) VisitorContext \<Rightarrow> VisitorResult \<Rightarrow> ('d, 'n) VisitorContext" where
  "mergeResult ctx other =
     ctx\<lparr>result := \<lparr> changes = changes (result ctx) @ changes other,
                       errors = errors (result ctx) @ errors other \<rparr>\<rparr>"

section \<open>SchemaRule: pick and visit\<close>

definition SchemaRule_pick :: "SchemaRule \<Rightarrow> ('d, 'n) VisitorContext \<Rightarrow> 'd
    \<Rightarrow> ('d, 'n) VisitorContext \<times> 'n list" where
  "SchemaRule_pick rule ctx root =
     (let items = pick ctx (select rule) root
      in if length items = 0 then (log Debug [] ''no data selected'' ctx, items)
         else (ctx, items))"

definition compileFilter :: "SchemaRule \<Rightarrow> ('d, 'n) VisitorContext \<Rightarrow> ValidateFunction" where
  "compileFilter rule ctx =
     (if isNil (filter_opt rule)
      then (\<lambda>node. \<lparr> valid = True, node_after = node, failures = None \<rparr>)
      else compile ctx (the (filter_opt rule)))"

text \<open>
  \<open>visit\<close> returns the context (it has logged), the node as the predicates left it, and
  the result.
\<close>

definition SchemaRule_visit :: "SchemaRule \<Rightarrow> ('d, 'n) VisitorContext \<Rightarrow> json
    \<Rightarrow> ('d, 'n) VisitorContext \<times> json \<times> VisitorResult" where
  "SchemaRule_visit rule ctx node =
     (let ctx1 = log Debug [LItem node, LRule rule] ''visiting node'' ctx;
          checkFn = compile ctx1 (check rule);
          filterFn = compileFilter rule ctx1;
          f = filterFn node
      in if valid f then
           let ctx2 = log Debug [LItem (node_after f)] ''checking item'' ctx1;
               c = checkFn (node_after f)
           in if \<not> valid c \<and> hasItems (failures c)
              then (ctx2, node_after c,
                    \<lparr> changes = [],
                      errors = map (\<lambda>err. friendlyError ctx2 err rule) (the (failures c)) \<rparr>)
              else (ctx2, node_after c, \<lparr> changes = [], errors = [] \<rparr>)
         else (log Debug [LErrors (failures f), LItem (node_after f)] ''skipping item'' ctx1,
               node_after f, \<lparr> changes = [], errors = [] \<rparr>))"

section \<open>visitRules\<close>

text \<open>
  What the engine takes from the JavaScript heap and from deep-diff: \<open>valueOf d n\<close> is the
  tree value of the node \<open>n\<close> in the state \<open>d\<close> of the document, \<open>diff\<close> the delta of two
  tree values (\<open>undefined\<close> or a list of operations), and \<open>applyDiff n v d\<close> the state of
  the document after \<open>applyDiff(n, v)\<close>.
\<close>

record ('d, 'n) runtime =
  valueOf :: "'d \<Rightarrow> 'n \<Rightarrow> json"
  diff :: "json \<Rightarrow> json \<Rightarrow> DeltaOp list option"
  applyDiff :: "'n \<Rightarrow> json \<Rightarrow> 'd \<Rightarrow> 'd"

text \<open>The body of the inner loop, on the context and the state of the document.\<close>

definition visitItem :: "('d, 'n) runtime \<Rightarrow> SchemaRule \<Rightarrow> 'n
    \<Rightarrow> ('d, 'n) VisitorContext \<times> 'd \<Rightarrow> ('d, 'n) VisitorContext \<times> 'd" where
  "visitItem rt rule item s =
     (let ctx = fst s;
          data = snd s;
          itemResult = cloneDeep (valueOf rt data item);
          v = SchemaRule_visit rule ctx itemResult;
          ctx1 = fst v;
          itemResult1 = fst (snd v);
          ruleResult = snd (snd v)
      in if length (errors ruleResult) > 0 then
           (mergeResult
              (log Warn [LCount (length (errors ruleResult)), LRule rule] ''rule failed'' ctx1)
              ruleResult,
            data)
         else
           let itemDiff = diff rt (valueOf rt data item) itemResult1
           in if hasItems itemDiff then
                let ctx2 = log Info [LDiff itemDiff, LItem (valueOf rt data item),
                                     LRuleName (name rule)]
                             ''rule passed with modifications'' ctx1
                in if mutate (innerOptions ctx2)
                   then (ctx2, applyDiff rt item itemResult1 data)
                   else (ctx2, data)
              else (log Info [LRuleName (name rule)] ''rule passed'' ctx1, data))"

fun visitItems :: "('d, 'n) runtime \<Rightarrow> SchemaRule \<Rightarrow> 'n list
    \<Rightarrow> ('d, 'n) VisitorContext \<times> 'd \<Rightarrow> ('d, 'n) VisitorContext \<times> 'd" where
  "visitItems rt rule [] s = s"
| "visitItems rt rule (item # items) s = visitItems rt rule items (visitItem rt rule item s)"

fun visitRules :: "('d, 'n) runtime \<Rightarrow> ('d, 'n) VisitorContext \<Rightarrow> SchemaRule list \<Rightarrow> 'd
    \<Rightarrow> ('d, 'n) VisitorContext \<times> 'd" where
  "visitRules rt ctx [] data = (ctx, data)"
| "visitRules rt ctx (rule # rules) data =
     (let p = SchemaRule_pick rule ctx data;
          s = visitItems rt rule (snd p) (fst p, data)
      in visitRules rt (fst s) rules (snd s))"

section \<open>Vocabulary of the properties\<close>

text \<open>The exclude criteria of a selector, as one predicate on a rule.\<close>

definition excluded :: "RuleSelector \<Rightarrow> SchemaRule \<Rightarrow> bool" where
  "excluded selector rule =
     (level rule \<in> set (excludeLevel selector) \<or>
      name rule \<in> set (excludeName selector) \<or>
      (\<exists>t \<in> set (excludeTag selector). t \<in> set (tags rule)))"

definition included :: "RuleSelector \<Rightarrow> SchemaRule \<Rightarrow> bool" where
  "included selector rule =
     (level rule \<in> set (includeLevel selector) \<or>
      name rule \<in> set (includeName selector) \<or>
      (\<exists>t \<in> set (includeTag selector). t \<in> set (tags rule)))"

text \<open>
  The errors of a \<open>visit\<close> and the node as the \<open>visit\<close> left it; \<open>checked\<close> is what the
  check predicate leaves when it is called on the node the filter has accepted.
\<close>

definition visit_errors :: "SchemaRule \<Rightarrow> ('d, 'n) VisitorContext \<Rightarrow> json \<Rightarrow> VisitorError list" where
  "visit_errors rule ctx node = errors (snd (snd (SchemaRule_visit rule ctx node)))"

definition visit_node :: "SchemaRule \<Rightarrow> ('d, 'n) VisitorContext \<Rightarrow> json \<Rightarrow> json" where
  "visit_node rule ctx node = fst (snd (SchemaRule_visit rule ctx node))"

definition checked :: "SchemaRule \<Rightarrow> ('d, 'n) VisitorContext \<Rightarrow> json \<Rightarrow> validation" where
  "checked rule ctx node = compile ctx (check rule) (node_after (compileFilter rule ctx node))"

text \<open>
  Two contexts belong to the same run when they differ at most in what was logged and
  accumulated.
\<close>

definition same_run :: "('d, 'n) VisitorContext \<Rightarrow> ('d, 'n) VisitorContext \<Rightarrow> bool" where
  "same_run c1 c2 = (compile c1 = compile c2 \<and> pick c1 = pick c2 \<and> innerOptions c1 = innerOptions c2)"

text \<open>
  A rule passes with a delta on a node when \<open>visit\<close> reports no error on the working copy
  and the working copy differs from the node; \<open>delta_entry\<close> is what the engine logs then.
\<close>

definition passes_with_delta :: "('d, 'n) runtime \<Rightarrow> SchemaRule \<Rightarrow> ('d, 'n) VisitorContext \<Rightarrow> 'd \<Rightarrow> 'n \<Rightarrow> bool" where
  "passes_with_delta rt rule ctx d item =
     (visit_errors rule ctx (cloneDeep (valueOf rt d item)) = [] \<and>
      hasItems (diff rt (valueOf rt d item) (visit_node rule ctx (cloneDeep (valueOf rt d item)))))"

definition delta_entry :: "('d, 'n) runtime \<Rightarrow> SchemaRule \<Rightarrow> ('d, 'n) VisitorContext \<Rightarrow> 'd \<Rightarrow> 'n \<Rightarrow> log_entry" where
  "delta_entry rt rule ctx d item =
     (Info,
      [LDiff (diff rt (valueOf rt d item) (visit_node rule ctx (cloneDeep (valueOf rt d item)))),
       LItem (valueOf rt d item), LRuleName (name rule)],
      ''rule passed with modifications'')"




section \<open>A runtime on trees, and examples\<close>

text \<open>
  A runtime in which the document is a tree value and a node is the path to it from the
  root: \<open>applyDiff\<close> rewrites the subtree at the path with the delta of the delta engine.
  The examples below run the engine on it.
\<close>

fun getChild :: "key \<Rightarrow> json \<Rightarrow> json option" where
  "getChild (Prop k) (JObj a) = map_of a k"
| "getChild (Index i) (JArr xs) = (if i < length xs then Some (xs ! i) else None)"
| "getChild k t = None"

fun lookup :: "path \<Rightarrow> json \<Rightarrow> json option" where
  "lookup [] t = Some t"
| "lookup (k # p) t = (case getChild k t of None \<Rightarrow> None | Some c \<Rightarrow> lookup p c)"

fun modifyAt :: "path \<Rightarrow> (json \<Rightarrow> json) \<Rightarrow> json \<Rightarrow> json" where
  "modifyAt [] f t = f t"
| "modifyAt (k # p) f t = setChild k (modifyAt p f) t"

definition tree_runtime :: "(json, path) runtime" where
  "tree_runtime =
     \<lparr> valueOf = (\<lambda>d p. case lookup p d of None \<Rightarrow> JNull | Some v \<Rightarrow> v),
       diff = (\<lambda>a b. Some (DeltaEngine_diff a b)),
       applyDiff = (\<lambda>p v d. modifyAt p (\<lambda>t. DeltaEngine_apply t (DeltaEngine_diff t v)) d) \<rparr>"

text \<open>
  Five schemas and what they compile to: a required property \<open>port\<close>; a required
  property \<open>kind\<close>; a default for the
  property \<open>tag\<close>; a predicate that sets the default, rejects and exposes no failure; and a
  predicate that writes the properties back in the opposite order.
\<close>

definition require_port :: json where
  "require_port = JObj [(''required'', JArr [JStr ''port''])]"

definition require_kind :: json where
  "require_kind = JObj [(''required'', JArr [JStr ''kind''])]"

definition default_tag :: json where
  "default_tag = JObj [(''properties'', JObj [(''tag'', JObj [(''default'', JStr ''default'')])])]"

definition silent_reject :: json where
  "silent_reject = JObj [(''not'', JObj []), (''properties'', JObj [(''tag'', JObj [(''default'', JStr ''default'')])])]"

definition reorder_keys :: json where
  "reorder_keys = JObj [(''reorder'', JBool True)]"

fun rev_props :: "json \<Rightarrow> json" where
  "rev_props (JObj a) = JObj (rev a)"
| "rev_props t = t"

fun has_prop :: "string \<Rightarrow> json \<Rightarrow> bool" where
  "has_prop k (JObj a) = (map_of a k \<noteq> None)"
| "has_prop k t = False"

fun with_tag :: "json \<Rightarrow> json" where
  "with_tag (JObj a) = (if map_of a ''tag'' = None then JObj (a @ [(''tag'', JStr ''default'')]) else JObj a)"
| "with_tag t = t"

definition example_compile :: "json \<Rightarrow> ValidateFunction" where
  "example_compile schema node =
     (if schema = require_port then
        (if has_prop ''port'' node
         then \<lparr> valid = True, node_after = node, failures = None \<rparr>
         else \<lparr> valid = False, node_after = node,
                failures = Some [\<lparr> dataPath = [], message = ''should have required property port'' \<rparr>] \<rparr>)
      else if schema = default_tag then
        \<lparr> valid = True, node_after = with_tag node, failures = None \<rparr>
      else if schema = silent_reject then
        \<lparr> valid = False, node_after = with_tag node, failures = None \<rparr>
      else if schema = require_kind then
        (if has_prop ''kind'' node
         then \<lparr> valid = True, node_after = node, failures = None \<rparr>
         else \<lparr> valid = False, node_after = node,
                failures = Some [\<lparr> dataPath = [], message = ''should have required property kind'' \<rparr>] \<rparr>)
      else if schema = reorder_keys then
        \<lparr> valid = True, node_after = rev_props node, failures = None \<rparr>
      else \<lparr> valid = True, node_after = node, failures = None \<rparr>)"

text \<open>Path selection for the two selectors of the examples, and a fresh context.\<close>

definition example_pick :: "string \<Rightarrow> json \<Rightarrow> path list" where
  "example_pick sel d =
     (if sel = ''$.servers[*]'' then
        (case lookup [Prop ''servers''] d of
           Some (JArr xs) \<Rightarrow> map (\<lambda>(i, x). [Prop ''servers'', Index i]) (enumerate 0 xs)
         | _ \<Rightarrow> [])
      else if sel = ''$'' then [[]]
      else [])"

definition example_ctx :: "bool \<Rightarrow> (json, path) VisitorContext" where
  "example_ctx m =
     \<lparr> logger = [], compile = example_compile, pick = example_pick,
       result = \<lparr> changes = [], errors = [] \<rparr>, innerOptions = \<lparr> mutate = m \<rparr> \<rparr>"

text \<open>The rules and documents of the examples.\<close>

definition example_data :: "string list \<Rightarrow> string option \<Rightarrow> RuleData" where
  "example_data ts sel =
     \<lparr> data_desc = ''ports are required'', data_level = Info, data_name = ''port-required'',
       data_tags = ts, data_check = JObj [(''required'', JArr [JStr ''port''])],
       data_filter = None, data_select = sel \<rparr>"

definition example_heap :: "ref \<Rightarrow> SchemaRule" where
  "example_heap r = SchemaRule_new (example_data [''net'', ''ports''] None)"

definition no_criteria :: RuleSelector where
  "no_criteria =
     \<lparr> excludeLevel = [], excludeName = [], excludeTag = [],
       includeLevel = [], includeName = [], includeTag = [] \<rparr>"

definition both_criteria :: RuleSelector where
  "both_criteria =
     \<lparr> excludeLevel = [], excludeName = [], excludeTag = [''ports''],
       includeLevel = [Info], includeName = [''port-required''], includeTag = [''ports''] \<rparr>"

definition port_rule :: SchemaRule where
  "port_rule = SchemaRule_new (example_data [''net''] (Some ''$.servers[*]''))"

definition tag_rule :: SchemaRule where
  "tag_rule = port_rule\<lparr> check := default_tag, name := ''tag-default'' \<rparr>"

definition silent_rule :: SchemaRule where
  "silent_rule = port_rule\<lparr> check := silent_reject, name := ''silent'' \<rparr>"

definition reorder_rule :: SchemaRule where
  "reorder_rule = port_rule\<lparr> check := reorder_keys, name := ''reorder'' \<rparr>"

definition servers_doc :: json where
  "servers_doc =
     JObj [(''servers'', JArr [JObj [(''host'', JStr ''a'')],
                               JObj [(''host'', JStr ''b''), (''port'', JNum 80)]])]"

definition filtered_rule :: SchemaRule where
  "filtered_rule = port_rule\<lparr> check := silent_reject, filter_opt := Some require_port, name := ''filtered'' \<rparr>"

definition server_a :: json where
  "server_a = JObj [(''host'', JStr ''a'')]"

definition tagged_doc :: json where
  "tagged_doc =
     JObj [(''servers'', JArr [JObj [(''host'', JStr ''a''), (''tag'', JStr ''default'')],
                               JObj [(''host'', JStr ''b''), (''port'', JNum 80),
                                     (''tag'', JStr ''default'')]])]"



section \<open>Rule selection and construction\<close>

lemma set_uniq: "set (uniq seen xs) = set xs - set seen"
  by (induction seen xs rule: uniq.induct) auto

lemma set_intersection: "set (intersection xs ys) = set xs \<inter> set ys"
  by (auto simp: intersection_def set_uniq)

lemma intersection_nonempty:
  "(length (intersection xs ys) > 0) = (\<exists>t. t \<in> set xs \<and> t \<in> set ys)"
proof -
  have "(length (intersection xs ys) > 0) = (set (intersection xs ys) \<noteq> {})"
    by simp
  then show ?thesis
    unfolding set_intersection by auto
qed

lemma set_Set_add: "set (Set_add x s) = insert x (set s)"
  by (auto simp: Set_add_def)

lemma set_resolveRule:
  "set (resolveRule selector heap r active) =
     (if \<not> excluded selector (heap r) \<and> included selector (heap r)
      then insert r (set active) else set active)"
  unfolding resolveRule_def excluded_def included_def Array_includes_def intersection_nonempty Let_def
  by (auto simp: set_Set_add)

lemma set_resolveLoop:
  "set (resolveLoop selector heap rules active) =
     set active \<union> {r \<in> set rules. \<not> excluded selector (heap r) \<and> included selector (heap r)}"
  by (induction rules arbitrary: active) (auto simp: set_resolveRule)

lemma set_resolveRules:
  "set (resolveRules heap rules selector) =
     {r \<in> set rules. \<not> excluded selector (heap r) \<and> included selector (heap r)}"
  by (simp add: resolveRules_def set_resolveLoop)

text \<open>
  C2. With all six criteria empty, \<open>resolveRules\<close> returns no rule, whatever the catalog;
  and a rule that matches none of the three include predicates is never in the result.
\<close>

theorem resolveRules_empty_criteria:
  "(excludeLevel selector = [] \<and> excludeName selector = [] \<and> excludeTag selector = [] \<and>
    includeLevel selector = [] \<and> includeName selector = [] \<and> includeTag selector = []
      \<longrightarrow> resolveRules heap rules selector = []) \<and>
   (level (heap r) \<notin> set (includeLevel selector) \<and>
    name (heap r) \<notin> set (includeName selector) \<and>
    set (includeTag selector) \<inter> set (tags (heap r)) = {}
      \<longrightarrow> r \<notin> set (resolveRules heap rules selector))"
proof (intro conjI impI)
  assume empty: "excludeLevel selector = [] \<and> excludeName selector = [] \<and>
    excludeTag selector = [] \<and> includeLevel selector = [] \<and> includeName selector = [] \<and>
    includeTag selector = []"
  then have "\<not> included selector (heap q)" for q
    by (simp add: included_def)
  then have "set (resolveRules heap rules selector) = {}"
    by (simp add: set_resolveRules)
  then show "resolveRules heap rules selector = []"
    by simp
next
  assume "level (heap r) \<notin> set (includeLevel selector) \<and>
    name (heap r) \<notin> set (includeName selector) \<and>
    set (includeTag selector) \<inter> set (tags (heap r)) = {}"
  then have "\<not> included selector (heap r)"
    by (auto simp: included_def)
  then show "r \<notin> set (resolveRules heap rules selector)"
    by (simp add: set_resolveRules)
qed

theorem resolveRules_empty_criteria_witness:
  "resolveRules example_heap [0, 1, 2] no_criteria = [] \<and>
   level (example_heap 1) \<notin> set (includeLevel (no_criteria\<lparr>includeName := [''other'']\<rparr>)) \<and>
   name (example_heap 1) \<notin> set (includeName (no_criteria\<lparr>includeName := [''other'']\<rparr>)) \<and>
   1 \<notin> set (resolveRules example_heap [0, 1, 2] (no_criteria\<lparr>includeName := [''other'']\<rparr>))"
proof -
  have a: "resolveRules example_heap [0, 1, 2] no_criteria = []"
    using resolveRules_empty_criteria [of no_criteria example_heap "[0, 1, 2]" 0]
    by (simp add: no_criteria_def)
  have b: "1 \<notin> set (resolveRules example_heap [0, 1, 2] (no_criteria\<lparr>includeName := [''other'']\<rparr>))"
    using resolveRules_empty_criteria
      [of "no_criteria\<lparr>includeName := [''other'']\<rparr>" example_heap "[0, 1, 2]" 1]
    by (simp add: no_criteria_def example_heap_def example_data_def SchemaRule_new_def
        Array_from_def defaultTo_def)
  show ?thesis
    using a b
    by (simp add: no_criteria_def example_heap_def example_data_def SchemaRule_new_def)
qed

text \<open>
  C3. Exclusion dominates: a rule that matches any exclude criterion (its level in
  \<open>excludeLevel\<close>, its name in \<open>excludeName\<close>, one of its tags in \<open>excludeTag\<close>) is not in
  the result of \<open>resolveRules\<close>, whatever it matches among the include criteria; in
  particular a rule with a tag that is both in \<open>includeTag\<close> and in \<open>excludeTag\<close> is not.
\<close>

theorem resolveRules_exclude_dominates:
  "(level (heap r) \<in> set (excludeLevel selector) \<or>
    name (heap r) \<in> set (excludeName selector) \<or>
    set (excludeTag selector) \<inter> set (tags (heap r)) \<noteq> {}
      \<longrightarrow> r \<notin> set (resolveRules heap rules selector)) \<and>
   (t \<in> set (tags (heap r)) \<and> t \<in> set (includeTag selector) \<and> t \<in> set (excludeTag selector)
      \<longrightarrow> r \<notin> set (resolveRules heap rules selector))"
proof (intro conjI impI)
  assume "level (heap r) \<in> set (excludeLevel selector) \<or>
    name (heap r) \<in> set (excludeName selector) \<or>
    set (excludeTag selector) \<inter> set (tags (heap r)) \<noteq> {}"
  then have "excluded selector (heap r)"
    by (auto simp: excluded_def)
  then show "r \<notin> set (resolveRules heap rules selector)"
    by (simp add: set_resolveRules)
next
  assume "t \<in> set (tags (heap r)) \<and> t \<in> set (includeTag selector) \<and>
    t \<in> set (excludeTag selector)"
  then have "excluded selector (heap r)"
    by (auto simp: excluded_def)
  then show "r \<notin> set (resolveRules heap rules selector)"
    by (simp add: set_resolveRules)
qed

theorem resolveRules_exclude_dominates_witness:
  "set (excludeTag both_criteria) \<inter> set (tags (example_heap 0)) \<noteq> {} \<and>
   ''ports'' \<in> set (tags (example_heap 0)) \<and> ''ports'' \<in> set (includeTag both_criteria) \<and>
   ''ports'' \<in> set (excludeTag both_criteria) \<and>
   level (example_heap 0) \<in> set (includeLevel both_criteria) \<and>
   name (example_heap 0) \<in> set (includeName both_criteria) \<and>
   0 \<notin> set (resolveRules example_heap [0] both_criteria) \<and>
   resolveRules example_heap [0] (both_criteria\<lparr>excludeTag := []\<rparr>) = [0]"
proof -
  have g: "level (example_heap 0) \<in> set (excludeLevel both_criteria) \<or>
      name (example_heap 0) \<in> set (excludeName both_criteria) \<or>
      set (excludeTag both_criteria) \<inter> set (tags (example_heap 0)) \<noteq> {}"
    by (simp add: both_criteria_def example_heap_def example_data_def SchemaRule_new_def
        Array_from_def)
  have h: "''ports'' \<in> set (tags (example_heap 0)) \<and> ''ports'' \<in> set (includeTag both_criteria) \<and>
      ''ports'' \<in> set (excludeTag both_criteria)"
    by (simp add: both_criteria_def example_heap_def example_data_def SchemaRule_new_def
        Array_from_def)
  have i: "level (example_heap 0) \<in> set (includeLevel both_criteria) \<and>
      name (example_heap 0) \<in> set (includeName both_criteria)"
    by (simp add: both_criteria_def example_heap_def example_data_def SchemaRule_new_def)
  have a: "0 \<notin> set (resolveRules example_heap [0] both_criteria)"
    using g resolveRules_exclude_dominates [of example_heap 0 both_criteria "[0]" "''ports''"]
    by blast
  have a': "0 \<notin> set (resolveRules example_heap [0] both_criteria)"
    using h resolveRules_exclude_dominates [of example_heap 0 both_criteria "[0]" "''ports''"]
    by blast
  have b: "resolveRules example_heap [0] (both_criteria\<lparr>excludeTag := []\<rparr>) = [0]"
    by code_simp
  have n: "set (excludeTag both_criteria) \<inter> set (tags (example_heap 0)) \<noteq> {}"
    using h by blast
  show ?thesis
    using n h i a a' b by blast
qed

subsection \<open>Construction\<close>

text \<open>
  C8, as the spec states it: the \<open>select\<close> of a constructed rule is never empty. The
  constructor replaces only an absent \<open>select\<close>; an empty string is kept.
\<close>

theorem select_empty_counterexample:
  "select (SchemaRule_new (example_data [''net''] (Some []))) = []"
  by (simp add: SchemaRule_new_def example_data_def defaultTo_def)

text \<open>
  C8, amended. The \<open>select\<close> of a constructed rule is \<open>$\<close> when the input has none, and
  the input's \<open>select\<close> otherwise; so it is empty only when the input gives the empty
  string.
\<close>

theorem select_default:
  "(data_select data = None \<longrightarrow> select (SchemaRule_new data) = ''$'') \<and>
   (\<forall>s. data_select data = Some s \<longrightarrow> select (SchemaRule_new data) = s) \<and>
   (data_select data \<noteq> Some [] \<longrightarrow> select (SchemaRule_new data) \<noteq> [])"
  by (cases "data_select data") (auto simp: SchemaRule_new_def defaultTo_def)

theorem select_default_witness:
  "data_select (example_data [''net''] None) = None \<and>
   select (SchemaRule_new (example_data [''net''] None)) = ''$'' \<and>
   data_select (example_data [''net''] (Some ''$.spec'')) = Some ''$.spec'' \<and>
   data_select (example_data [''net''] (Some ''$.spec'')) \<noteq> Some [] \<and>
   select (SchemaRule_new (example_data [''net''] (Some ''$.spec''))) = ''$.spec'' \<and>
   select (SchemaRule_new (example_data [''net''] (Some ''$.spec''))) \<noteq> []"
proof -
  have a: "data_select (example_data [''net''] None) = None"
    by (simp add: example_data_def)
  have b: "data_select (example_data [''net''] (Some ''$.spec'')) = Some ''$.spec''"
    by (simp add: example_data_def)
  have c: "data_select (example_data [''net''] (Some ''$.spec'')) \<noteq> Some []"
    by (simp add: example_data_def)
  show ?thesis
    using a b c select_default [of "example_data [''net''] None"]
      select_default [of "example_data [''net''] (Some ''$.spec'')"]
    by blast
qed

text \<open>
  C9, as the spec states it: duplicate tags of the input collapse. The constructor copies
  the list of tags as it is.
\<close>

theorem tags_duplicates_counterexample:
  "tags (SchemaRule_new (example_data [''net'', ''net''] None)) = [''net'', ''net''] \<and>
   \<not> distinct (tags (SchemaRule_new (example_data [''net'', ''net''] None)))"
  by (simp add: SchemaRule_new_def example_data_def Array_from_def)

text \<open>
  C9, amended. The tags of a constructed rule are a copy of the input's list of tags, in
  the same order and with the same repetitions; the rule has exactly the tags of the input.
\<close>

theorem tags_copied:
  "tags (SchemaRule_new data) = data_tags data \<and>
   set (tags (SchemaRule_new data)) = set (data_tags data)"
  by (simp add: SchemaRule_new_def Array_from_def)

section \<open>Visiting one node\<close>

lemma same_run_refl: "same_run c c"
  by (simp add: same_run_def)

lemma same_run_trans: "same_run a b \<Longrightarrow> same_run b c \<Longrightarrow> same_run a c"
  by (simp add: same_run_def)

lemma same_run_sym: "same_run a b \<Longrightarrow> same_run b a"
  by (simp add: same_run_def)

lemma same_run_log: "same_run c (log lvl flds msg c)"
  by (simp add: same_run_def log_def)

lemma result_log: "result (log lvl flds msg c) = result c"
  by (simp add: log_def)

lemma logger_log: "logger (log lvl flds msg c) = logger c @ [(lvl, flds, msg)]"
  by (simp add: log_def)

lemma same_run_mergeResult: "same_run c (mergeResult c r)"
  by (simp add: same_run_def mergeResult_def)

lemma visit_same_run: "same_run ctx (fst (SchemaRule_visit rule ctx node))"
  by (simp add: SchemaRule_visit_def Let_def same_run_def log_def)

lemma visit_result: "result (fst (SchemaRule_visit rule ctx node)) = result ctx"
  by (simp add: SchemaRule_visit_def Let_def log_def)

lemma visit_changes: "changes (snd (snd (SchemaRule_visit rule ctx node))) = []"
  by (simp add: SchemaRule_visit_def Let_def)

lemma visit_logger: "\<exists>l. logger (fst (SchemaRule_visit rule ctx node)) = logger ctx @ l"
  by (simp add: SchemaRule_visit_def Let_def log_def)

lemma visit_cong:
  "same_run c1 c2 \<Longrightarrow> snd (SchemaRule_visit rule c1 node) = snd (SchemaRule_visit rule c2 node)"
  by (simp add: SchemaRule_visit_def Let_def same_run_def log_def compileFilter_def friendlyError_def)

lemma visit_errors_cong: "same_run c1 c2 \<Longrightarrow> visit_errors rule c1 node = visit_errors rule c2 node"
  by (simp add: visit_errors_def visit_cong)

lemma visit_node_cong: "same_run c1 c2 \<Longrightarrow> visit_node rule c1 node = visit_node rule c2 node"
  by (simp add: visit_node_def visit_cong)

lemma compileFilter_log: "compileFilter rule (log lvl flds msg ctx) = compileFilter rule ctx"
  by (simp add: compileFilter_def log_def)

lemma compile_log: "compile (log lvl flds msg ctx) = compile ctx"
  by (simp add: log_def)

lemma visit_errors_eq:
  "visit_errors rule ctx node =
     (if valid (compileFilter rule ctx node) \<and> \<not> valid (checked rule ctx node) \<and>
         hasItems (failures (checked rule ctx node))
      then map (\<lambda>err. friendlyError ctx err rule) (the (failures (checked rule ctx node)))
      else [])"
  by (simp add: visit_errors_def SchemaRule_visit_def Let_def compileFilter_log compile_log
      friendlyError_def checked_def)

lemma visit_node_eq:
  "visit_node rule ctx node =
     (if valid (compileFilter rule ctx node)
      then node_after (checked rule ctx node)
      else node_after (compileFilter rule ctx node))"
  by (simp add: visit_node_def SchemaRule_visit_def Let_def compileFilter_log compile_log
      checked_def)

text \<open>
  C6. When the filter predicate of a rule rejects a node, \<open>visit\<close> returns a result with no
  error and no change, whatever the check predicate would say of the node, and leaves the
  node as the filter left it. A rule without a filter has the constant-true predicate for
  one: the node is checked (the check is logged), and the errors of \<open>visit\<close> are those of
  the check predicate on the node.
\<close>

theorem visit_filter_skip:
  "(filter_opt rule = Some f \<and> \<not> valid (compile ctx f node) \<longrightarrow>
      snd (snd (SchemaRule_visit rule ctx node)) = \<lparr> changes = [], errors = [] \<rparr> \<and>
      visit_node rule ctx node = node_after (compile ctx f node)) \<and>
   (filter_opt rule = None \<longrightarrow>
      compileFilter rule ctx node = \<lparr> valid = True, node_after = node, failures = None \<rparr> \<and>
      (Debug, [LItem node], ''checking item'') \<in> set (logger (fst (SchemaRule_visit rule ctx node))) \<and>
      visit_errors rule ctx node =
        (if \<not> valid (compile ctx (check rule) node) \<and>
            hasItems (failures (compile ctx (check rule) node))
         then map (\<lambda>err. friendlyError ctx err rule) (the (failures (compile ctx (check rule) node)))
         else []))"
  by (simp add: SchemaRule_visit_def compileFilter_def isNil_def Let_def log_def
      visit_errors_def visit_node_def friendlyError_def)

theorem visit_filter_skip_witness:
  "filter_opt filtered_rule = Some require_port \<and>
   \<not> valid (compile (example_ctx True) require_port server_a) \<and>
   \<not> valid (compile (example_ctx True) (check filtered_rule) server_a) \<and>
   snd (snd (SchemaRule_visit filtered_rule (example_ctx True) server_a)) =
     \<lparr> changes = [], errors = [] \<rparr> \<and>
   filter_opt port_rule = None \<and>
   visit_errors port_rule (example_ctx True) server_a =
     [\<lparr> err_rule = port_rule, err_path = [], err_msg = ''should have required property port'' \<rparr>]"
proof -
  have h: "filter_opt filtered_rule = Some require_port \<and>
      \<not> valid (compile (example_ctx True) require_port server_a)"
    by code_simp
  have k: "\<not> valid (compile (example_ctx True) (check filtered_rule) server_a)"
    by code_simp
  have n: "filter_opt port_rule = None"
    by code_simp
  have e: "(if \<not> valid (compile (example_ctx True) (check port_rule) server_a) \<and>
            hasItems (failures (compile (example_ctx True) (check port_rule) server_a))
         then map (\<lambda>err. friendlyError (example_ctx True) err port_rule)
                (the (failures (compile (example_ctx True) (check port_rule) server_a)))
         else []) =
     [\<lparr> err_rule = port_rule, err_path = [], err_msg = ''should have required property port'' \<rparr>]"
    by code_simp
  show ?thesis
    using h k n e
      visit_filter_skip [of filtered_rule require_port "example_ctx True" server_a]
      visit_filter_skip [of port_rule require_port "example_ctx True" server_a]
    by simp
qed

section \<open>The engine\<close>

text \<open>What one iteration of the inner loop does to the document and to the context.\<close>

lemma visitItem_data:
  "snd (visitItem rt rule item (ctx, d)) =
     (if visit_errors rule ctx (cloneDeep (valueOf rt d item)) = [] \<and>
         hasItems (diff rt (valueOf rt d item) (visit_node rule ctx (cloneDeep (valueOf rt d item)))) \<and>
         mutate (innerOptions ctx)
      then applyDiff rt item (visit_node rule ctx (cloneDeep (valueOf rt d item))) d
      else d)"
  using visit_same_run [of ctx rule "cloneDeep (valueOf rt d item)"]
  by (simp add: visitItem_def Let_def visit_errors_def visit_node_def same_run_def log_def)

lemma visitItem_same_run: "same_run ctx (fst (visitItem rt rule item (ctx, d)))"
  using visit_same_run [of ctx rule "cloneDeep (valueOf rt d item)"]
  by (simp add: visitItem_def Let_def same_run_def log_def mergeResult_def)

lemma visitItem_errors:
  "errors (result (fst (visitItem rt rule item (ctx, d)))) =
     errors (result ctx) @ visit_errors rule ctx (cloneDeep (valueOf rt d item))"
  by (simp add: visitItem_def Let_def visit_errors_def log_def mergeResult_def visit_result)

lemma visitItem_changes:
  "changes (result (fst (visitItem rt rule item (ctx, d)))) = changes (result ctx)"
  by (simp add: visitItem_def Let_def log_def mergeResult_def visit_result visit_changes)

lemma visitItem_logger: "\<exists>l. logger (fst (visitItem rt rule item (ctx, d))) = logger ctx @ l"
  using visit_logger [of rule ctx "cloneDeep (valueOf rt d item)"]
  by (auto simp add: visitItem_def Let_def log_def mergeResult_def)


text \<open>The two loops keep the run, the changes of the report, and what was logged and reported.\<close>

lemma pick_same_run: "same_run ctx (fst (SchemaRule_pick rule ctx d))"
  by (simp add: SchemaRule_pick_def Let_def same_run_def log_def)

lemma pick_result: "result (fst (SchemaRule_pick rule ctx d)) = result ctx"
  by (simp add: SchemaRule_pick_def Let_def log_def)

lemma pick_items: "snd (SchemaRule_pick rule ctx d) = pick ctx (select rule) d"
  by (simp add: SchemaRule_pick_def Let_def)

lemma pick_logger: "\<exists>l. logger (fst (SchemaRule_pick rule ctx d)) = logger ctx @ l"
  by (simp add: SchemaRule_pick_def Let_def log_def)

lemma visitItems_same_run: "same_run ctx (fst (visitItems rt rule items (ctx, d)))"
proof (induction items arbitrary: ctx d)
  case Nil
  show ?case by (simp add: same_run_refl)
next
  case (Cons item items)
  obtain c' d' where step: "visitItem rt rule item (ctx, d) = (c', d')"
    by (cases "visitItem rt rule item (ctx, d)")
  have "same_run ctx c'"
    using visitItem_same_run [of ctx rt rule item d] step by simp
  moreover have "same_run c' (fst (visitItems rt rule items (c', d')))"
    by (rule Cons.IH)
  ultimately show ?case
    using step by (simp add: same_run_trans)
qed

lemma visitItems_changes:
  "changes (result (fst (visitItems rt rule items (ctx, d)))) = changes (result ctx)"
proof (induction items arbitrary: ctx d)
  case Nil
  show ?case by simp
next
  case (Cons item items)
  obtain c' d' where step: "visitItem rt rule item (ctx, d) = (c', d')"
    by (cases "visitItem rt rule item (ctx, d)")
  have "changes (result c') = changes (result ctx)"
    using visitItem_changes [of rt rule item ctx d] step by simp
  then show ?case
    using step Cons.IH [of c' d'] by simp
qed

lemma visitItems_errors: "\<exists>E. errors (result (fst (visitItems rt rule items (ctx, d)))) = errors (result ctx) @ E"
proof (induction items arbitrary: ctx d)
  case Nil
  show ?case by simp
next
  case (Cons item items)
  obtain c' d' where step: "visitItem rt rule item (ctx, d) = (c', d')"
    by (cases "visitItem rt rule item (ctx, d)")
  have "errors (result c') = errors (result ctx) @ visit_errors rule ctx (cloneDeep (valueOf rt d item))"
    using visitItem_errors [of rt rule item ctx d] step by simp
  moreover obtain E where "errors (result (fst (visitItems rt rule items (c', d')))) = errors (result c') @ E"
    using Cons.IH [of c' d'] by blast
  ultimately show ?case
    using step by simp
qed

lemma visitItems_logger: "\<exists>l. logger (fst (visitItems rt rule items (ctx, d))) = logger ctx @ l"
proof (induction items arbitrary: ctx d)
  case Nil
  show ?case by simp
next
  case (Cons item items)
  obtain c' d' where step: "visitItem rt rule item (ctx, d) = (c', d')"
    by (cases "visitItem rt rule item (ctx, d)")
  obtain l1 where "logger c' = logger ctx @ l1"
    using visitItem_logger [of rt rule item ctx d] step by auto
  moreover obtain l2 where "logger (fst (visitItems rt rule items (c', d'))) = logger c' @ l2"
    using Cons.IH [of c' d'] by blast
  ultimately show ?case
    using step by simp
qed

lemma visitItems_no_mutate:
  "\<not> mutate (innerOptions ctx) \<Longrightarrow> snd (visitItems rt rule items (ctx, d)) = d"
proof (induction items arbitrary: ctx)
  case Nil
  show ?case by simp
next
  case (Cons item items)
  obtain c' d' where step: "visitItem rt rule item (ctx, d) = (c', d')"
    by (cases "visitItem rt rule item (ctx, d)")
  have d': "d' = d"
    using visitItem_data [of rt rule item ctx d] step Cons.prems by simp
  have "same_run ctx c'"
    using visitItem_same_run [of ctx rt rule item d] step by simp
  then have "\<not> mutate (innerOptions c')"
    using Cons.prems by (simp add: same_run_def)
  then show ?case
    using step d' Cons.IH [of c'] by simp
qed




lemma visitRules_step:
  "visitRules rt ctx (rule # rules) d =
     visitRules rt (fst (visitItems rt rule (pick ctx (select rule) d) (fst (SchemaRule_pick rule ctx d), d)))
       rules (snd (visitItems rt rule (pick ctx (select rule) d) (fst (SchemaRule_pick rule ctx d), d)))"
  by (simp add: Let_def pick_items)


lemma visitRules_changes:
  "changes (result (fst (visitRules rt ctx rules d))) = changes (result ctx)"
proof (induction rules arbitrary: ctx d)
  case Nil
  show ?case by simp
next
  case (Cons rule rules)
  show ?case
    unfolding visitRules_step
    by (simp add: Cons.IH visitItems_changes pick_result)
qed

lemma visitRules_errors:
  "\<exists>E. errors (result (fst (visitRules rt ctx rules d))) = errors (result ctx) @ E"
proof (induction rules arbitrary: ctx d)
  case Nil
  show ?case by simp
next
  case (Cons rule rules)
  let ?p = "fst (SchemaRule_pick rule ctx d)"
  let ?s = "visitItems rt rule (pick ctx (select rule) d) (?p, d)"
  obtain E1 where "errors (result (fst ?s)) = errors (result ctx) @ E1"
    using visitItems_errors [of rt rule "pick ctx (select rule) d" ?p d] by (auto simp: pick_result)
  moreover obtain E2 where
    "errors (result (fst (visitRules rt (fst ?s) rules (snd ?s)))) = errors (result (fst ?s)) @ E2"
    using Cons.IH by blast
  ultimately show ?case
    unfolding visitRules_step by simp
qed

lemma visitRules_logger:
  "\<exists>l. logger (fst (visitRules rt ctx rules d)) = logger ctx @ l"
proof (induction rules arbitrary: ctx d)
  case Nil
  show ?case by simp
next
  case (Cons rule rules)
  let ?p = "fst (SchemaRule_pick rule ctx d)"
  let ?s = "visitItems rt rule (pick ctx (select rule) d) (?p, d)"
  obtain l0 where "logger ?p = logger ctx @ l0"
    using pick_logger [of rule ctx d] by auto
  moreover obtain l1 where "logger (fst ?s) = logger ?p @ l1"
    using visitItems_logger [of rt rule "pick ctx (select rule) d" ?p d] by auto
  moreover obtain l2 where
    "logger (fst (visitRules rt (fst ?s) rules (snd ?s))) = logger (fst ?s) @ l2"
    using Cons.IH [of "fst ?s" "snd ?s"] by auto
  ultimately show ?case
    unfolding visitRules_step by simp
qed

lemma visitRules_no_mutate:
  "\<not> mutate (innerOptions ctx) \<Longrightarrow> snd (visitRules rt ctx rules d) = d"
proof (induction rules arbitrary: ctx)
  case Nil
  show ?case by simp
next
  case (Cons rule rules)
  let ?p = "fst (SchemaRule_pick rule ctx d)"
  let ?s = "visitItems rt rule (pick ctx (select rule) d) (?p, d)"
  have p: "\<not> mutate (innerOptions ?p)"
    using Cons.prems pick_same_run [of ctx rule d] by (simp add: same_run_def)
  then have d: "snd ?s = d"
    by (rule visitItems_no_mutate)
  have "same_run ?p (fst ?s)"
    by (rule visitItems_same_run)
  then have "\<not> mutate (innerOptions (fst ?s))"
    using p by (simp add: same_run_def)
  then have "snd (visitRules rt (fst ?s) rules d) = d"
    by (rule Cons.IH)
  then show ?case
    unfolding visitRules_step using d by simp
qed



lemma visitRules_first_item_errors:
  assumes "pick ctx (select rule) d = item # items"
  shows "\<exists>E. errors (result (fst (visitRules rt ctx (rule # rules) d))) =
     errors (result ctx) @ visit_errors rule ctx (cloneDeep (valueOf rt d item)) @ E"
proof -
  let ?p = "fst (SchemaRule_pick rule ctx d)"
  let ?i = "visitItem rt rule item (?p, d)"
  let ?s = "visitItems rt rule items ?i"
  have sp: "same_run ctx ?p"
    by (rule pick_same_run)
  have "errors (result (fst ?i)) = errors (result ?p) @ visit_errors rule ?p (cloneDeep (valueOf rt d item))"
    by (rule visitItem_errors)
  then have e1: "errors (result (fst ?i)) = errors (result ctx) @ visit_errors rule ctx (cloneDeep (valueOf rt d item))"
    using visit_errors_cong [OF sp, of rule] by (simp add: pick_result)
  obtain E1 where e2: "errors (result (fst ?s)) = errors (result (fst ?i)) @ E1"
    using visitItems_errors [of rt rule items "fst ?i" "snd ?i"] by auto
  obtain E2 where e3: "errors (result (fst (visitRules rt (fst ?s) rules (snd ?s)))) = errors (result (fst ?s)) @ E2"
    using visitRules_errors [of rt "fst ?s" rules "snd ?s"] by auto
  have "visitRules rt ctx (rule # rules) d = visitRules rt (fst ?s) rules (snd ?s)"
    unfolding visitRules_step assms by simp
  then show ?thesis
    using e1 e2 e3 by simp
qed

text \<open>Without \<open>mutate\<close>, the delta of a passing node is in the log at the end of the run.\<close>

lemma passes_with_delta_cong:
  "same_run c1 c2 \<Longrightarrow> passes_with_delta rt rule c1 d item = passes_with_delta rt rule c2 d item"
  by (simp add: passes_with_delta_def visit_errors_cong [of c1 c2] visit_node_cong [of c1 c2])

lemma delta_entry_cong:
  "same_run c1 c2 \<Longrightarrow> delta_entry rt rule c1 d item = delta_entry rt rule c2 d item"
  by (simp add: delta_entry_def visit_node_cong [of c1 c2])

lemma visitItem_delta_entry:
  "passes_with_delta rt rule ctx d item \<Longrightarrow>
   delta_entry rt rule ctx d item \<in> set (logger (fst (visitItem rt rule item (ctx, d))))"
  by (simp add: passes_with_delta_def delta_entry_def visitItem_def Let_def visit_errors_def
      visit_node_def log_def)

lemma visitItems_delta_entry:
  "\<not> mutate (innerOptions ctx) \<Longrightarrow> item \<in> set items \<Longrightarrow> passes_with_delta rt rule ctx d item \<Longrightarrow>
   delta_entry rt rule ctx d item \<in> set (logger (fst (visitItems rt rule items (ctx, d))))"
proof (induction items arbitrary: ctx)
  case Nil
  then show ?case by simp
next
  case (Cons it items)
  obtain c' d' where step: "visitItem rt rule it (ctx, d) = (c', d')"
    by (cases "visitItem rt rule it (ctx, d)")
  have d': "d' = d"
    using visitItem_data [of rt rule it ctx d] step Cons.prems(1) by simp
  have sr: "same_run ctx c'"
    using visitItem_same_run [of ctx rt rule it d] step by simp
  show ?case
  proof (cases "item = it")
    case True
    then have "delta_entry rt rule ctx d item \<in> set (logger c')"
      using visitItem_delta_entry [OF Cons.prems(3)] step by simp
    moreover obtain l where "logger (fst (visitItems rt rule items (c', d'))) = logger c' @ l"
      using visitItems_logger [of rt rule items c' d'] by auto
    ultimately show ?thesis
      using step by simp
  next
    case False
    then have i: "item \<in> set items"
      using Cons.prems(2) by simp
    have m: "\<not> mutate (innerOptions c')"
      using sr Cons.prems(1) by (simp add: same_run_def)
    have p: "passes_with_delta rt rule c' d item"
      using Cons.prems(3) passes_with_delta_cong [OF sr] by simp
    have "delta_entry rt rule c' d item \<in> set (logger (fst (visitItems rt rule items (c', d))))"
      using m i p by (rule Cons.IH)
    then show ?thesis
      using step d' delta_entry_cong [OF sr, of rt rule d item] by simp
  qed
qed

lemma visitRules_delta_entry:
  "\<not> mutate (innerOptions ctx) \<Longrightarrow> rule \<in> set rules \<Longrightarrow> item \<in> set (pick ctx (select rule) d) \<Longrightarrow>
   passes_with_delta rt rule ctx d item \<Longrightarrow>
   delta_entry rt rule ctx d item \<in> set (logger (fst (visitRules rt ctx rules d)))"
proof (induction rules arbitrary: ctx)
  case Nil
  then show ?case by simp
next
  case (Cons r rules)
  let ?p = "fst (SchemaRule_pick r ctx d)"
  let ?s = "visitItems rt r (pick ctx (select r) d) (?p, d)"
  have sp: "same_run ctx ?p"
    by (rule pick_same_run)
  have ss: "same_run ctx (fst ?s)"
    using sp visitItems_same_run [of ?p rt r "pick ctx (select r) d" d]
    by (rule same_run_trans)
  have mp: "\<not> mutate (innerOptions ?p)"
    using sp Cons.prems(1) by (simp add: same_run_def)
  have ds: "snd ?s = d"
    using mp by (rule visitItems_no_mutate)
  show ?case
  proof (cases "rule = r")
    case True
    have "passes_with_delta rt r ?p d item"
      using Cons.prems(4) True passes_with_delta_cong [OF sp] by simp
    then have "delta_entry rt r ?p d item \<in> set (logger (fst ?s))"
      using mp Cons.prems(3) True by (intro visitItems_delta_entry) simp_all
    then have "delta_entry rt rule ctx d item \<in> set (logger (fst ?s))"
      using True delta_entry_cong [OF sp, of rt r d item] by simp
    moreover obtain l where "logger (fst (visitRules rt (fst ?s) rules (snd ?s))) = logger (fst ?s) @ l"
      using visitRules_logger [of rt "fst ?s" rules "snd ?s"] by auto
    ultimately show ?thesis
      unfolding visitRules_step by simp
  next
    case False
    then have r: "rule \<in> set rules"
      using Cons.prems(2) by simp
    have m: "\<not> mutate (innerOptions (fst ?s))"
      using ss Cons.prems(1) by (simp add: same_run_def)
    have i: "item \<in> set (pick (fst ?s) (select rule) d)"
      using ss Cons.prems(3) by (simp add: same_run_def)
    have p: "passes_with_delta rt rule (fst ?s) d item"
      using Cons.prems(4) passes_with_delta_cong [OF ss] by simp
    have "delta_entry rt rule (fst ?s) d item \<in> set (logger (fst (visitRules rt (fst ?s) rules d)))"
      using m r i p by (rule Cons.IH)
    then show ?thesis
      unfolding visitRules_step using ds delta_entry_cong [OF ss, of rt rule d item] by simp
  qed
qed












text \<open>
  C10. When the filter accepts a node and the check predicate rejects it with an absent or
  empty list of failure descriptors, \<open>visit\<close> returns no error. The engine then treats the
  node as passing: nothing is merged into the report, and the node is rewritten with what
  the predicate made of the working copy when that differs from the node and \<open>mutate\<close> is
  set.
\<close>

theorem visit_rejection_without_failures:
  "valid (compileFilter rule ctx (cloneDeep (valueOf rt d item))) \<and>
   \<not> valid (checked rule ctx (cloneDeep (valueOf rt d item))) \<and>
   (failures (checked rule ctx (cloneDeep (valueOf rt d item))) = None \<or>
    failures (checked rule ctx (cloneDeep (valueOf rt d item))) = Some [])
   \<longrightarrow>
     visit_errors rule ctx (cloneDeep (valueOf rt d item)) = [] \<and>
     visit_node rule ctx (cloneDeep (valueOf rt d item)) =
       node_after (checked rule ctx (cloneDeep (valueOf rt d item))) \<and>
     result (fst (visitItem rt rule item (ctx, d))) = result ctx \<and>
     snd (visitItem rt rule item (ctx, d)) =
       (if hasItems (diff rt (valueOf rt d item)
                       (node_after (checked rule ctx (cloneDeep (valueOf rt d item))))) \<and>
           mutate (innerOptions ctx)
        then applyDiff rt item (node_after (checked rule ctx (cloneDeep (valueOf rt d item)))) d
        else d)"
proof (intro impI)
  let ?node = "cloneDeep (valueOf rt d item)"
  assume a: "valid (compileFilter rule ctx ?node) \<and> \<not> valid (checked rule ctx ?node) \<and>
   (failures (checked rule ctx ?node) = None \<or> failures (checked rule ctx ?node) = Some [])"
  then have nh: "\<not> hasItems (failures (checked rule ctx ?node))"
    by (auto simp: hasItems_def)
  have e: "visit_errors rule ctx ?node = []"
    using nh by (simp add: visit_errors_eq)
  have n: "visit_node rule ctx ?node = node_after (checked rule ctx ?node)"
    using a by (simp add: visit_node_eq)
  have r: "result (fst (visitItem rt rule item (ctx, d))) = result ctx"
    using e by (simp add: visitItem_def Let_def visit_errors_def log_def visit_result)
  show "visit_errors rule ctx ?node = [] \<and>
     visit_node rule ctx ?node = node_after (checked rule ctx ?node) \<and>
     result (fst (visitItem rt rule item (ctx, d))) = result ctx \<and>
     snd (visitItem rt rule item (ctx, d)) =
       (if hasItems (diff rt (valueOf rt d item) (node_after (checked rule ctx ?node))) \<and>
           mutate (innerOptions ctx)
        then applyDiff rt item (node_after (checked rule ctx ?node)) d
        else d)"
    using e n r by (simp add: visitItem_data)
qed

theorem visit_rejection_without_failures_witness:
  "valueOf tree_runtime servers_doc [Prop ''servers'', Index 0] = server_a \<and>
   valid (compileFilter silent_rule (example_ctx True)
            (cloneDeep (valueOf tree_runtime servers_doc [Prop ''servers'', Index 0]))) \<and>
   \<not> valid (checked silent_rule (example_ctx True)
              (cloneDeep (valueOf tree_runtime servers_doc [Prop ''servers'', Index 0]))) \<and>
   failures (checked silent_rule (example_ctx True)
               (cloneDeep (valueOf tree_runtime servers_doc [Prop ''servers'', Index 0]))) = None \<and>
   visit_errors silent_rule (example_ctx True)
     (cloneDeep (valueOf tree_runtime servers_doc [Prop ''servers'', Index 0])) = [] \<and>
   result (fst (visitItem tree_runtime silent_rule [Prop ''servers'', Index 0]
                  (example_ctx True, servers_doc))) = result (example_ctx True) \<and>
   snd (visitItem tree_runtime silent_rule [Prop ''servers'', Index 0] (example_ctx True, servers_doc)) =
     JObj [(''servers'', JArr [JObj [(''host'', JStr ''a''), (''tag'', JStr ''default'')],
                               JObj [(''host'', JStr ''b''), (''port'', JNum 80)]])]"
proof -
  let ?i = "[Prop ''servers'', Index 0]"
  let ?node = "cloneDeep (valueOf tree_runtime servers_doc ?i)"
  let ?c = "checked silent_rule (example_ctx True) ?node"
  have u: "valueOf tree_runtime servers_doc ?i = server_a"
    by code_simp
  have h: "valid (compileFilter silent_rule (example_ctx True) ?node) \<and> \<not> valid ?c \<and>
      failures ?c = None"
    by code_simp
  have v: "(if hasItems (diff tree_runtime (valueOf tree_runtime servers_doc ?i) (node_after ?c)) \<and>
          mutate (innerOptions (example_ctx True))
       then applyDiff tree_runtime ?i (node_after ?c) servers_doc else servers_doc) =
     JObj [(''servers'', JArr [JObj [(''host'', JStr ''a''), (''tag'', JStr ''default'')],
                               JObj [(''host'', JStr ''b''), (''port'', JNum 80)]])]"
    by code_simp
  have c: "visit_errors silent_rule (example_ctx True) ?node = [] \<and>
      result (fst (visitItem tree_runtime silent_rule ?i (example_ctx True, servers_doc))) =
        result (example_ctx True) \<and>
      snd (visitItem tree_runtime silent_rule ?i (example_ctx True, servers_doc)) =
        (if hasItems (diff tree_runtime (valueOf tree_runtime servers_doc ?i) (node_after ?c)) \<and>
            mutate (innerOptions (example_ctx True))
         then applyDiff tree_runtime ?i (node_after ?c) servers_doc else servers_doc)"
    using h visit_rejection_without_failures [of silent_rule "example_ctx True" tree_runtime
        servers_doc ?i]
    by blast
  show ?thesis
    using u h c v by (simp only: simp_thms)
qed






text \<open>
  C7, as the spec states it: without \<open>mutate\<close> the report records the would-be change. A
  rule that passes with a delta leaves the document as it is, and leaves the report empty:
  no change and no error.
\<close>

theorem dry_run_report_counterexample:
  "\<not> mutate (innerOptions (example_ctx False)) \<and>
   [Prop ''servers'', Index 0] \<in> set (pick (example_ctx False) (select tag_rule) servers_doc) \<and>
   visit_errors tag_rule (example_ctx False)
     (cloneDeep (valueOf tree_runtime servers_doc [Prop ''servers'', Index 0])) = [] \<and>
   diff tree_runtime (valueOf tree_runtime servers_doc [Prop ''servers'', Index 0])
     (visit_node tag_rule (example_ctx False)
        (cloneDeep (valueOf tree_runtime servers_doc [Prop ''servers'', Index 0]))) =
     Some [Added [] (Prop ''tag'') (JStr ''default'')] \<and>
   snd (visitRules tree_runtime (example_ctx False) [tag_rule] servers_doc) = servers_doc \<and>
   result (fst (visitRules tree_runtime (example_ctx False) [tag_rule] servers_doc)) =
     \<lparr> changes = [], errors = [] \<rparr>"
  by code_simp

text \<open>
  C7, amended. In a run without \<open>mutate\<close> in which a rule of the list passes with a
  non-empty delta on one of its nodes, the document is left unchanged, the changes of the
  report are those it had before the run, and the delta is in the log, in the entry
  \<open>rule passed with modifications\<close>.
\<close>

theorem dry_run_logs_delta:
  "\<not> mutate (innerOptions ctx) \<and> rule \<in> set rules \<and> item \<in> set (pick ctx (select rule) d) \<and>
   visit_errors rule ctx (cloneDeep (valueOf rt d item)) = [] \<and>
   hasItems (diff rt (valueOf rt d item) (visit_node rule ctx (cloneDeep (valueOf rt d item))))
   \<longrightarrow>
     snd (visitRules rt ctx rules d) = d \<and>
     changes (result (fst (visitRules rt ctx rules d))) = changes (result ctx) \<and>
     (Info,
      [LDiff (diff rt (valueOf rt d item) (visit_node rule ctx (cloneDeep (valueOf rt d item)))),
       LItem (valueOf rt d item), LRuleName (name rule)],
      ''rule passed with modifications'') \<in> set (logger (fst (visitRules rt ctx rules d)))"
proof (intro impI)
  assume a: "\<not> mutate (innerOptions ctx) \<and> rule \<in> set rules \<and> item \<in> set (pick ctx (select rule) d) \<and>
   visit_errors rule ctx (cloneDeep (valueOf rt d item)) = [] \<and>
   hasItems (diff rt (valueOf rt d item) (visit_node rule ctx (cloneDeep (valueOf rt d item))))"
  then have p: "passes_with_delta rt rule ctx d item"
    by (simp add: passes_with_delta_def)
  have "delta_entry rt rule ctx d item \<in> set (logger (fst (visitRules rt ctx rules d)))"
    using a p by (intro visitRules_delta_entry) simp_all
  then show "snd (visitRules rt ctx rules d) = d \<and>
     changes (result (fst (visitRules rt ctx rules d))) = changes (result ctx) \<and>
     (Info,
      [LDiff (diff rt (valueOf rt d item) (visit_node rule ctx (cloneDeep (valueOf rt d item)))),
       LItem (valueOf rt d item), LRuleName (name rule)],
      ''rule passed with modifications'') \<in> set (logger (fst (visitRules rt ctx rules d)))"
    using a by (simp add: visitRules_no_mutate visitRules_changes delta_entry_def)
qed

theorem dry_run_logs_delta_witness:
  "\<not> mutate (innerOptions (example_ctx False)) \<and>
   tag_rule \<in> set [port_rule, tag_rule] \<and>
   [Prop ''servers'', Index 1] \<in> set (pick (example_ctx False) (select tag_rule) servers_doc) \<and>
   visit_errors tag_rule (example_ctx False)
     (cloneDeep (valueOf tree_runtime servers_doc [Prop ''servers'', Index 1])) = [] \<and>
   diff tree_runtime (valueOf tree_runtime servers_doc [Prop ''servers'', Index 1])
     (visit_node tag_rule (example_ctx False)
        (cloneDeep (valueOf tree_runtime servers_doc [Prop ''servers'', Index 1]))) =
     Some [Added [] (Prop ''tag'') (JStr ''default'')] \<and>
   snd (visitRules tree_runtime (example_ctx False) [port_rule, tag_rule] servers_doc) = servers_doc \<and>
   changes (result (fst (visitRules tree_runtime (example_ctx False) [port_rule, tag_rule] servers_doc))) =
     changes (result (example_ctx False)) \<and>
   (Info,
    [LDiff (diff tree_runtime (valueOf tree_runtime servers_doc [Prop ''servers'', Index 1])
       (visit_node tag_rule (example_ctx False)
          (cloneDeep (valueOf tree_runtime servers_doc [Prop ''servers'', Index 1])))),
     LItem (valueOf tree_runtime servers_doc [Prop ''servers'', Index 1]),
     LRuleName (name tag_rule)],
    ''rule passed with modifications'')
     \<in> set (logger (fst (visitRules tree_runtime (example_ctx False) [port_rule, tag_rule] servers_doc)))"
proof -
  let ?i = "[Prop ''servers'', Index 1]"
  let ?w = "visit_node tag_rule (example_ctx False) (cloneDeep (valueOf tree_runtime servers_doc ?i))"
  have h: "\<not> mutate (innerOptions (example_ctx False)) \<and>
      tag_rule \<in> set [port_rule, tag_rule] \<and>
      ?i \<in> set (pick (example_ctx False) (select tag_rule) servers_doc) \<and>
      visit_errors tag_rule (example_ctx False) (cloneDeep (valueOf tree_runtime servers_doc ?i)) = [] \<and>
      hasItems (diff tree_runtime (valueOf tree_runtime servers_doc ?i) ?w)"
    by code_simp
  have v: "diff tree_runtime (valueOf tree_runtime servers_doc ?i) ?w =
        Some [Added [] (Prop ''tag'') (JStr ''default'')]"
    by code_simp
  show ?thesis
    using h v
      dry_run_logs_delta [of "example_ctx False" tag_rule "[port_rule, tag_rule]" ?i servers_doc
        tree_runtime]
    by blast
qed

section \<open>The delta engine\<close>

lemma applyChange_at: "applyChange t (at k c) = setChild k (\<lambda>x. applyChange x c) t"
  by (cases c) simp_all

lemma map_prop_id: "map (\<lambda>(k', v). if k' = k then (k', v) else (k', v)) a = a"
  by (induction a) auto

lemma setChild_id: "setChild k (\<lambda>x. x) t = t"
  by (induction k "\<lambda>x::json. x" t rule: setChild.induct) (simp_all add: map_prop_id)

lemma setChild_comp: "setChild k f (setChild k g t) = setChild k (\<lambda>x. f (g x)) t"
  by (induction k g t rule: setChild.induct) (auto simp: comp_def split_def)

lemma foldl_at_gen:
  "foldl applyChange (setChild k g t) (map (at k) ops) =
     setChild k (\<lambda>x. foldl applyChange (g x) ops) t"
  by (induction ops arbitrary: g) (simp_all add: applyChange_at setChild_comp)

lemma foldl_at:
  "foldl applyChange t (map (at k) ops) = setChild k (\<lambda>x. foldl applyChange x ops) t"
  using foldl_at_gen [of k "\<lambda>x. x" t ops] by (simp add: setChild_id)

lemma deep_equal_refl: "deep_equal t t"
proof (induction t)
  case (JArr xs)
  then show ?case
    by (induction xs) auto
next
  case (JObj a)
  have "\<And>k v. map_of a k = Some v \<Longrightarrow> deep_equal v v"
  proof -
    fix k v
    assume "map_of a k = Some v"
    then have "(k, v) \<in> set a"
      by (rule map_of_SomeD)
    then show "deep_equal v v"
      using JObj.IH [of "(k, v)" v] by simp
  qed
  moreover have "\<And>k. k \<in> fst ` set a \<Longrightarrow> \<exists>v. map_of a k = Some v"
    by (metis domD dom_map_of_conv_image_fst)
  ultimately show ?case
    by (auto simp: list_all_iff split: option.splits)
qed simp_all

subsection \<open>Arrays\<close>

lemma foldl_added_elems:
  "foldl applyChange (JArr pre) (map (\<lambda>(j, y). Added [] (Index j) y) (enumerate (length pre) ys)) =
     JArr (pre @ ys)"
proof (induction ys arbitrary: pre)
  case Nil
  show ?case by simp
next
  case (Cons y ys)
  show ?case
    using Cons.IH [of "pre @ [y]"] by simp
qed

lemma diff_elems_apply:
  assumes "\<And>x y. x \<in> set xs \<Longrightarrow> deep_equal (foldl applyChange x (DeltaEngine_diff x y)) y"
  shows "\<exists>zs. foldl applyChange (JArr (pre @ xs)) (diff_elems (length pre) xs ys) = JArr (pre @ zs) \<and>
              length zs = length ys \<and> list_all (\<lambda>(z, y). deep_equal z y) (zip zs ys)"
  using assms
proof (induction xs arbitrary: pre ys)
  case Nil
  have "list_all (\<lambda>(z, y). deep_equal z y) (zip ys ys)"
    by (induction ys) (simp_all add: deep_equal_refl)
  then show ?case
    using foldl_added_elems [of pre ys] by auto
next
  case (Cons x xs)
  show ?case
  proof (cases ys)
    case Nil
    obtain zs where z: "foldl applyChange (JArr ((pre @ [x]) @ xs)) (diff_elems (length (pre @ [x])) xs []) =
        JArr ((pre @ [x]) @ zs)" and "length zs = length ([]::json list)"
      using Cons.IH [of "pre @ [x]" "[]"] Cons.prems by auto
    then have "zs = []"
      by simp
    then show ?thesis
      using z Nil by simp
  next
    case (Cons y ys')
    let ?x' = "foldl applyChange x (DeltaEngine_diff x y)"
    have first: "foldl applyChange (JArr (pre @ x # xs)) (map (at (Index (length pre))) (DeltaEngine_diff x y)) =
        JArr ((pre @ [?x']) @ xs)"
      by (simp add: foldl_at)
    obtain zs where z: "foldl applyChange (JArr ((pre @ [?x']) @ xs)) (diff_elems (length (pre @ [?x'])) xs ys') =
        JArr ((pre @ [?x']) @ zs)" and l: "length zs = length ys'"
      and e: "list_all (\<lambda>(z, y). deep_equal z y) (zip zs ys')"
      using Cons.IH [of "pre @ [?x']" ys'] Cons.prems by auto
    have "deep_equal ?x' y"
      using Cons.prems by simp
    then show ?thesis
      using first z l e Cons by (intro exI [of _ "?x' # zs"]) simp
  qed
qed

subsection \<open>Objects\<close>

lemma map_of_setProp:
  "map_of (map (\<lambda>(k', v). if k' = k then (k', f v) else (k', v)) a) j =
     (if j = k then map_option f (map_of a k) else map_of a j)"
  by (induction a) auto

lemma map_of_removeProp:
  "map_of (filter (\<lambda>kv. fst kv \<noteq> k) a) j = (if j = k then None else map_of a j)"
  by (induction a) auto

lemma map_of_new_props:
  "map_of (filter (\<lambda>(k, w). map_of a k = None) b) j =
     (if map_of a j = None then map_of b j else None)"
  by (induction b) auto

lemma foldl_added_props:
  "foldl applyChange (JObj cur) (map (\<lambda>(k, w). Added [] (Prop k) w) new) = JObj (cur @ new)"
  by (induction new arbitrary: cur) auto

lemma diff_props_apply:
  assumes "distinct (map fst a)" and "\<And>k v. (k, v) \<in> set a \<Longrightarrow> map_of cur k = Some v"
  shows "\<exists>cur'. foldl applyChange (JObj cur) (diff_props a b) = JObj cur' \<and>
     (\<forall>k. map_of cur' k =
        (case map_of a k of
           None \<Rightarrow> map_of cur k
         | Some v \<Rightarrow> (case map_of b k of
                       None \<Rightarrow> None
                     | Some w \<Rightarrow> Some (foldl applyChange v (DeltaEngine_diff v w)))))"
  using assms
proof (induction a arbitrary: cur)
  case Nil
  show ?case by simp
next
  case (Cons kv a)
  obtain k0 v0 where kv: "kv = (k0, v0)"
    by (cases kv)
  have fresh: "map_of a k0 = None"
    using Cons.prems(1) kv by (simp add: map_of_eq_None_iff)
  have dist: "distinct (map fst a)"
    using Cons.prems(1) by simp
  have cur0: "map_of cur k0 = Some v0"
    using Cons.prems(2) [of k0 v0] kv by simp
  have others: "\<And>k v. (k, v) \<in> set a \<Longrightarrow> k \<noteq> k0 \<and> map_of cur k = Some v"
    using Cons.prems kv by force
  show ?case
  proof (cases "map_of b k0")
    case None
    let ?cur1 = "filter (\<lambda>kv. fst kv \<noteq> k0) cur"
    have "\<And>k v. (k, v) \<in> set a \<Longrightarrow> map_of ?cur1 k = Some v"
      using others by (simp add: map_of_removeProp)
    from Cons.IH [OF dist this]
    obtain cur' where a: "foldl applyChange (JObj ?cur1) (diff_props a b) = JObj cur'"
      and b: "\<forall>k. map_of cur' k =
        (case map_of a k of
           None \<Rightarrow> map_of ?cur1 k
         | Some v \<Rightarrow> (case map_of b k of
                       None \<Rightarrow> None
                     | Some w \<Rightarrow> Some (foldl applyChange v (DeltaEngine_diff v w))))"
      by blast
    have "foldl applyChange (JObj cur) (diff_props (kv # a) b) = JObj cur'"
      using a None kv by simp
    moreover have "\<forall>k. map_of cur' k =
        (case map_of (kv # a) k of
           None \<Rightarrow> map_of cur k
         | Some v \<Rightarrow> (case map_of b k of
                       None \<Rightarrow> None
                     | Some w \<Rightarrow> Some (foldl applyChange v (DeltaEngine_diff v w))))"
      using b None kv fresh by (auto simp: map_of_removeProp split: option.splits)
    ultimately show ?thesis
      by blast
  next
    case (Some w0)
    let ?f = "\<lambda>x. foldl applyChange x (DeltaEngine_diff v0 w0)"
    let ?cur1 = "map (\<lambda>(k', v). if k' = k0 then (k', ?f v) else (k', v)) cur"
    have "\<And>k v. (k, v) \<in> set a \<Longrightarrow> map_of ?cur1 k = Some v"
      using others by (simp add: map_of_setProp)
    from Cons.IH [OF dist this]
    obtain cur' where a: "foldl applyChange (JObj ?cur1) (diff_props a b) = JObj cur'"
      and b: "\<forall>k. map_of cur' k =
        (case map_of a k of
           None \<Rightarrow> map_of ?cur1 k
         | Some v \<Rightarrow> (case map_of b k of
                       None \<Rightarrow> None
                     | Some w \<Rightarrow> Some (foldl applyChange v (DeltaEngine_diff v w))))"
      by blast
    have "foldl applyChange (JObj cur) (diff_props (kv # a) b) = JObj cur'"
      using a Some kv by (simp add: foldl_at)
    moreover have "\<forall>k. map_of cur' k =
        (case map_of (kv # a) k of
           None \<Rightarrow> map_of cur k
         | Some v \<Rightarrow> (case map_of b k of
                       None \<Rightarrow> None
                     | Some w \<Rightarrow> Some (foldl applyChange v (DeltaEngine_diff v w))))"
      using b Some kv fresh cur0 by (auto simp: map_of_setProp split: option.splits)
    ultimately show ?thesis
      by blast
  qed
qed

lemma diff_apply_obj:
  assumes dist: "distinct (map fst a)"
    and vals: "\<And>k v w. (k, v) \<in> set a \<Longrightarrow> deep_equal (foldl applyChange v (DeltaEngine_diff v w)) w"
  shows "deep_equal (foldl applyChange (JObj a) (DeltaEngine_diff (JObj a) (JObj b))) (JObj b)"
proof -
  let ?new = "filter (\<lambda>(k, w). map_of a k = None) b"
  have "\<And>k v. (k, v) \<in> set a \<Longrightarrow> map_of a k = Some v"
    using dist by simp
  from diff_props_apply [OF dist this, of b]
  obtain cur' where run: "foldl applyChange (JObj a) (diff_props a b) = JObj cur'"
    and look: "\<And>k. map_of cur' k =
        (case map_of a k of
           None \<Rightarrow> map_of a k
         | Some v \<Rightarrow> (case map_of b k of
                       None \<Rightarrow> None
                     | Some w \<Rightarrow> Some (foldl applyChange v (DeltaEngine_diff v w))))"
    by blast
  have final: "foldl applyChange (JObj a) (DeltaEngine_diff (JObj a) (JObj b)) = JObj (cur' @ ?new)"
    by (simp add: run foldl_added_props)
  have rel: "rel_option deep_equal (map_of (cur' @ ?new) k) (map_of b k)" for k
  proof (cases "map_of a k")
    case None
    then have "map_of (cur' @ ?new) k = map_of b k"
      by (simp add: map_add_def look map_of_new_props)
    then show ?thesis
      by (simp add: option.rel_refl deep_equal_refl)
  next
    case (Some v)
    then have "(k, v) \<in> set a"
      by (rule map_of_SomeD)
    then have "deep_equal (foldl applyChange v (DeltaEngine_diff v w)) w" for w
      by (rule vals)
    then show ?thesis
      using Some by (cases "map_of b k") (simp_all add: map_add_def look map_of_new_props)
  qed
  have "\<exists>v w. map_of (cur' @ ?new) k = Some v \<and> map_of b k = Some w \<and> deep_equal v w"
    if "k \<in> fst ` set (cur' @ ?new) \<or> k \<in> fst ` set b" for k
  proof -
    have "map_of (cur' @ ?new) k \<noteq> None \<or> map_of b k \<noteq> None"
      using that by (metis map_of_eq_None_iff)
    moreover have "x \<noteq> None \<or> y \<noteq> None \<Longrightarrow> rel_option deep_equal x y \<Longrightarrow>
        \<exists>v w. x = Some v \<and> y = Some w \<and> deep_equal v w" for x y
      by (cases x; cases y) simp_all
    ultimately show ?thesis
      using rel [of k] by blast
  qed
  then have "deep_equal (JObj (cur' @ ?new)) (JObj b)"
    by (fastforce simp: list_all_iff split: option.splits)
  then show ?thesis
    by (simp only: final)
qed

lemma diff_apply_arr:
  assumes "\<And>x y. x \<in> set xs \<Longrightarrow> deep_equal (foldl applyChange x (DeltaEngine_diff x y)) y"
  shows "deep_equal (foldl applyChange (JArr xs) (DeltaEngine_diff (JArr xs) (JArr ys))) (JArr ys)"
  using diff_elems_apply [OF assms, of xs "[]" ys] by auto

lemma diff_apply:
  "wf_json A \<Longrightarrow> deep_equal (DeltaEngine_apply A (DeltaEngine_diff A B)) B"
  unfolding DeltaEngine_apply_def
proof (induction A arbitrary: B)
  case (JArr xs)
  have "\<And>x y. x \<in> set xs \<Longrightarrow> deep_equal (foldl applyChange x (DeltaEngine_diff x y)) y"
    using JArr by (simp add: list_all_iff)
  then have "deep_equal (foldl applyChange (JArr xs) (DeltaEngine_diff (JArr xs) (JArr ys))) (JArr ys)" for ys
    by (rule diff_apply_arr)
  then show ?case
    by (cases B) (simp_all add: deep_equal_refl)
next
  case (JObj a)
  have "\<And>k v w. (k, v) \<in> set a \<Longrightarrow> deep_equal (foldl applyChange v (DeltaEngine_diff v w)) w"
  proof -
    fix k v w
    assume "(k, v) \<in> set a"
    then show "deep_equal (foldl applyChange v (DeltaEngine_diff v w)) w"
      using JObj.IH [of "(k, v)" v w] JObj.prems by (auto simp: list_all_iff)
  qed
  moreover have "distinct (map fst a)"
    using JObj.prems by simp
  ultimately have "deep_equal (foldl applyChange (JObj a) (DeltaEngine_diff (JObj a) (JObj b))) (JObj b)" for b
    by (rule diff_apply_obj [rotated])
  then show ?case
    by (cases B) (simp_all add: deep_equal_refl)
qed (simp_all add: deep_equal_refl)

subsection \<open>No delta between deep-equal trees\<close>

lemma diff_props_empty:
  "(\<And>k v. (k, v) \<in> set a \<Longrightarrow> \<exists>w. map_of b k = Some w \<and> DeltaEngine_diff v w = []) \<Longrightarrow>
   diff_props a b = []"
proof (induction a)
  case Nil
  show ?case by simp
next
  case (Cons kv a)
  obtain k v where kv: "kv = (k, v)"
    by (cases kv)
  obtain w where "map_of b k = Some w" and "DeltaEngine_diff v w = []"
    using Cons.prems [of k v] kv by auto
  moreover have "diff_props a b = []"
    using Cons by simp
  ultimately show ?case
    using kv by simp
qed

lemma diff_elems_empty:
  "length xs = length ys \<Longrightarrow>
   (\<And>x y. (x, y) \<in> set (zip xs ys) \<Longrightarrow> DeltaEngine_diff x y = []) \<Longrightarrow>
   diff_elems i xs ys = []"
proof (induction xs arbitrary: ys i)
  case Nil
  then show ?case by simp
next
  case (Cons x xs)
  then show ?case
    by (cases ys) auto
qed

lemma deep_equal_objD:
  assumes "deep_equal (JObj a) (JObj b)" and "k \<in> fst ` set a \<or> k \<in> fst ` set b"
  shows "\<exists>v w. map_of a k = Some v \<and> map_of b k = Some w \<and> deep_equal v w"
proof -
  have "k \<in> set (map fst a @ map fst b)"
    using assms(2) by auto
  then have "case map_of a k of None \<Rightarrow> False
     | Some v \<Rightarrow> (case map_of b k of None \<Rightarrow> False | Some w \<Rightarrow> deep_equal v w)"
    using assms(1) by (simp add: list_all_iff)
  then show ?thesis
    by (cases "map_of a k"; cases "map_of b k") simp_all
qed

lemma diff_deep_equal:
  "wf_json A \<Longrightarrow> deep_equal A B \<Longrightarrow> DeltaEngine_diff A B = []"
proof (induction A arbitrary: B)
  case (JArr xs)
  show ?case
  proof (cases B)
    case (JArr ys)
    have len: "length xs = length ys"
      using JArr.prems(2) JArr by simp
    have "DeltaEngine_diff x y = []" if "(x, y) \<in> set (zip xs ys)" for x y
    proof -
      have "x \<in> set xs"
        using that by (rule set_zip_leftD)
      moreover have "deep_equal x y"
        using that JArr.prems(2) JArr by (auto simp: list_all_iff)
      ultimately show ?thesis
        using JArr.IH [of x y] JArr.prems(1) by (simp add: list_all_iff)
    qed
    then have "diff_elems 0 xs ys = []"
      using len by (intro diff_elems_empty) auto
    then show ?thesis
      using JArr by simp
  qed (use JArr.prems in simp_all)
next
  case (JObj a)
  show ?case
  proof (cases B)
    case (JObj b)
    have eq: "deep_equal (JObj a) (JObj b)"
      using JObj.prems(2) JObj by simp
    have dist: "distinct (map fst a)"
      using JObj.prems(1) by simp
    have "\<exists>w. map_of b k = Some w \<and> DeltaEngine_diff v w = []" if "(k, v) \<in> set a" for k v
    proof -
      have "map_of a k = Some v"
        using that dist by simp
      moreover have "k \<in> fst ` set a"
        using that by force
      ultimately obtain w where "map_of b k = Some w" and "deep_equal v w"
        using deep_equal_objD [OF eq, of k] by auto
      moreover have "wf_json v"
        using that JObj.prems(1) by (auto simp: list_all_iff)
      ultimately show ?thesis
        using JObj.IH [of "(k, v)" v w] that by simp
    qed
    then have props: "diff_props a b = []"
      by (rule diff_props_empty)
    have "map_of a k \<noteq> None" if "(k, w) \<in> set b" for k w
    proof -
      have "k \<in> fst ` set b"
        using that by force
      then show ?thesis
        using deep_equal_objD [OF eq, of k] by auto
    qed
    then have "filter (\<lambda>(k, w). map_of a k = None) b = []"
      by (auto simp: filter_empty_conv)
    then show ?thesis
      using props JObj by simp
  qed (use JObj.prems in simp_all)
qed simp_all

lemma diff_same: "wf_json A \<Longrightarrow> DeltaEngine_diff A A = []"
  by (simp add: diff_deep_equal deep_equal_refl)

text \<open>
  C4. For every tree value \<open>A\<close> with no duplicate key and every tree value \<open>B\<close>, applying
  \<open>diff A B\<close> to a deep clone of \<open>A\<close> gives a tree deep-equal to \<open>B\<close>; \<open>diff A A\<close> is
  empty, and so is \<open>diff A B\<close> for any \<open>B\<close> deep-equal to \<open>A\<close>; applying no operation is
  a no-op. In the engine, with this \<open>diff\<close>, a working copy that is deep-equal to its node
  causes no mutation and no change in the report.
\<close>

theorem DeltaEngine_roundtrip:
  "(wf_json A \<longrightarrow>
      deep_equal (DeltaEngine_apply (cloneDeep A) (DeltaEngine_diff A B)) B \<and>
      DeltaEngine_diff A A = [] \<and>
      (deep_equal A B \<longrightarrow> DeltaEngine_diff A B = [])) \<and>
   DeltaEngine_apply A [] = A \<and>
   (diff rt = (\<lambda>a b. Some (DeltaEngine_diff a b)) \<and> wf_json (valueOf rt d item) \<and>
    deep_equal (valueOf rt d item) (visit_node rule ctx (cloneDeep (valueOf rt d item)))
      \<longrightarrow> snd (visitItem rt rule item (ctx, d)) = d \<and>
          changes (result (fst (visitItem rt rule item (ctx, d)))) = changes (result ctx))"
proof (intro conjI impI)
  assume "wf_json A"
  then show "deep_equal (DeltaEngine_apply (cloneDeep A) (DeltaEngine_diff A B)) B"
    and "DeltaEngine_diff A A = []"
    by (simp_all add: cloneDeep_def diff_apply diff_same)
next
  assume "wf_json A" and "deep_equal A B"
  then show "DeltaEngine_diff A B = []"
    by (rule diff_deep_equal)
next
  show "DeltaEngine_apply A [] = A"
    by (simp add: DeltaEngine_apply_def)
next
  assume a: "diff rt = (\<lambda>a b. Some (DeltaEngine_diff a b)) \<and> wf_json (valueOf rt d item) \<and>
    deep_equal (valueOf rt d item) (visit_node rule ctx (cloneDeep (valueOf rt d item)))"
  then have "DeltaEngine_diff (valueOf rt d item) (visit_node rule ctx (cloneDeep (valueOf rt d item))) = []"
    by (simp add: diff_deep_equal)
  then have "\<not> hasItems (diff rt (valueOf rt d item) (visit_node rule ctx (cloneDeep (valueOf rt d item))))"
    using a by (simp add: hasItems_def)
  then show "snd (visitItem rt rule item (ctx, d)) = d"
    by (simp add: visitItem_data)
  show "changes (result (fst (visitItem rt rule item (ctx, d)))) = changes (result ctx)"
    by (rule visitItem_changes)
qed

theorem DeltaEngine_roundtrip_witness:
  "wf_json servers_doc \<and>
   DeltaEngine_diff servers_doc tagged_doc =
     [Added [Prop ''servers'', Index 0] (Prop ''tag'') (JStr ''default''),
      Added [Prop ''servers'', Index 1] (Prop ''tag'') (JStr ''default'')] \<and>
   deep_equal (DeltaEngine_apply (cloneDeep servers_doc) (DeltaEngine_diff servers_doc tagged_doc))
     tagged_doc \<and>
   DeltaEngine_diff servers_doc servers_doc = [] \<and>
   wf_json (JObj [(''host'', JStr ''b''), (''port'', JNum 80)]) \<and>
   deep_equal (JObj [(''host'', JStr ''b''), (''port'', JNum 80)])
     (JObj [(''port'', JNum 80), (''host'', JStr ''b'')]) \<and>
   DeltaEngine_diff (JObj [(''host'', JStr ''b''), (''port'', JNum 80)])
     (JObj [(''port'', JNum 80), (''host'', JStr ''b'')]) = [] \<and>
   valueOf tree_runtime servers_doc [Prop ''servers'', Index 1] =
     JObj [(''host'', JStr ''b''), (''port'', JNum 80)] \<and>
   visit_node reorder_rule (example_ctx True)
       (cloneDeep (valueOf tree_runtime servers_doc [Prop ''servers'', Index 1])) =
     JObj [(''port'', JNum 80), (''host'', JStr ''b'')] \<and>
   snd (visitItem tree_runtime reorder_rule [Prop ''servers'', Index 1] (example_ctx True, servers_doc)) =
     servers_doc"
proof -
  let ?i = "[Prop ''servers'', Index 1]"
  let ?b = "JObj [(''host'', JStr ''b''), (''port'', JNum 80)]"
  let ?r = "JObj [(''port'', JNum 80), (''host'', JStr ''b'')]"
  have w: "wf_json servers_doc"
    by code_simp
  have e: "DeltaEngine_diff servers_doc tagged_doc =
     [Added [Prop ''servers'', Index 0] (Prop ''tag'') (JStr ''default''),
      Added [Prop ''servers'', Index 1] (Prop ''tag'') (JStr ''default'')]"
    by code_simp
  have q: "wf_json ?b \<and> deep_equal ?b ?r"
    by code_simp
  have h: "diff tree_runtime = (\<lambda>a b. Some (DeltaEngine_diff a b))"
    by (simp add: tree_runtime_def)
  have v: "wf_json (valueOf tree_runtime servers_doc ?i) \<and>
      deep_equal (valueOf tree_runtime servers_doc ?i)
        (visit_node reorder_rule (example_ctx True) (cloneDeep (valueOf tree_runtime servers_doc ?i)))"
    by code_simp
  have u: "valueOf tree_runtime servers_doc ?i = ?b \<and>
      visit_node reorder_rule (example_ctx True) (cloneDeep (valueOf tree_runtime servers_doc ?i)) = ?r"
    by code_simp
  have c: "deep_equal (DeltaEngine_apply (cloneDeep servers_doc) (DeltaEngine_diff servers_doc tagged_doc))
        tagged_doc \<and>
      DeltaEngine_diff servers_doc servers_doc = [] \<and>
      snd (visitItem tree_runtime reorder_rule ?i (example_ctx True, servers_doc)) = servers_doc"
    using w h v
      DeltaEngine_roundtrip [of servers_doc tagged_doc tree_runtime servers_doc ?i reorder_rule
        "example_ctx True"]
    by blast
  have c2: "DeltaEngine_diff ?b ?r = []"
    using q DeltaEngine_roundtrip [of ?b ?r tree_runtime servers_doc ?i reorder_rule "example_ctx True"]
    by blast
  show ?thesis
    using w e q u c c2 by blast
qed

end
